theory Spec2Isabelle
  imports Main "HOL-Library.Word" "HOL-Library.Multiset"
begin

unbundle bit_operations_syntax

section \<open>Data model\<close>

text \<open>
  Fingerprints and document ids are Go \<open>uint64\<close> values. An \<open>entry\<close> is the struct
  \<open>{hash, docid}\<close>, a \<open>table\<close> is the slice \<open>[]entry\<close>, and the \<open>Store\<close> struct holds
  the fixed array \<open>tables [16]table\<close>, modelled as a list that has 16 elements in every
  store the program can build.
\<close>

type_synonym u64 = "64 word"

record entry =
  hash :: u64
  docid :: u64

type_synonym table = "entry list"

record Store =
  tables :: "table list"

text \<open>The zero value of \<open>Store\<close>: sixteen nil tables.\<close>

definition empty_Store :: Store where
  "empty_Store = \<lparr>tables = replicate 16 []\<rparr>"

section \<open>distance\<close>

text \<open>
  \<open>func distance(v1 uint64, v2 uint64) int\<close>. All arithmetic is on \<open>uint64\<close> and wraps;
  in Go \<open>&\<close> binds tighter than \<open>+\<close>, so the third line adds the two masked halves.
  The final \<open>int(x >> 56)\<close> reads the shifted word as a signed 64-bit integer.
\<close>

definition distance :: "u64 \<Rightarrow> u64 \<Rightarrow> int" where
  "distance v1 v2 =
    (let x = v1 XOR v2;
         x = x - (drop_bit 1 x AND 0x5555555555555555);
         x = (drop_bit 2 x AND 0x3333333333333333) + (x AND 0x3333333333333333);
         x = x + drop_bit 4 x;
         x = x AND 0x0f0f0f0f0f0f0f0f;
         x = x * 0x0101010101010101
     in sint (drop_bit 56 x))"

section \<open>table.find\<close>

text \<open>
  \<open>sort.Search(n, f)\<close> of the Go standard library: the bisection loop
  \<open>i, j := 0, n; for i < j { h := int(uint(i+j) >> 1); if !f(h) { i = h + 1 } else { j = h } }; return i\<close>.
\<close>

function Search_loop :: "(nat \<Rightarrow> bool) \<Rightarrow> nat \<Rightarrow> nat \<Rightarrow> nat" where
  "Search_loop f i j =
    (if i < j then
       (let h = (i + j) div 2
        in if \<not> f h then Search_loop f (h + 1) j else Search_loop f i h)
     else i)"
  by pat_completeness auto
termination
  by (relation "measure (\<lambda>(f, i, j). j - i)") auto

definition Search :: "nat \<Rightarrow> (nat \<Rightarrow> bool) \<Rightarrow> nat" where
  "Search n f = Search_loop f 0 n"

text \<open>The constant \<open>mask\<close> local to \<open>table.find\<close>.\<close>

definition find_mask :: u64 where
  "find_mask = 0xfffffff000000000"

text \<open>
  The scan loop of \<open>table.find\<close>:
  \<open>for i < len(t) && t[i].hash&mask == prefix { if distance(t[i].hash, sig) <= 3 { ids = append(ids, t[i].docid) }; i++ }\<close>.
\<close>

function find_scan :: "table \<Rightarrow> u64 \<Rightarrow> u64 \<Rightarrow> nat \<Rightarrow> u64 list \<Rightarrow> u64 list" where
  "find_scan t sig prefix i ids =
    (if i < length t \<and> hash (t ! i) AND find_mask = prefix then
       find_scan t sig prefix (i + 1)
         (if distance (hash (t ! i)) sig \<le> 3 then ids @ [docid (t ! i)] else ids)
     else ids)"
  by pat_completeness auto
termination
  by (relation "measure (\<lambda>(t, sig, prefix, i, ids). length t - i)") auto

definition table_find :: "table \<Rightarrow> u64 \<Rightarrow> u64 list" where
  "table_find t sig =
    (let prefix = sig AND find_mask;
         i = Search (length t) (\<lambda>i. hash (t ! i) \<ge> prefix)
     in find_scan t sig prefix i [])"

section \<open>Store.Add\<close>

text \<open>
  The loop \<open>for i := 0; i < 4; i++\<close> of \<open>Add\<close> with its running table index \<open>t\<close>.
  In Go \<open>&\<close>, \<open><<\<close> and \<open>>>\<close> share one precedence level and associate to the left, so
  \<open>sig & m >> 12\<close> is \<open>(sig & m) >> 12\<close>. The last statement of the body replaces \<open>sig\<close>
  by its rotation by 16 bits.
\<close>

function Add_loop :: "nat \<Rightarrow> nat \<Rightarrow> u64 \<Rightarrow> u64 \<Rightarrow> table list \<Rightarrow> table list" where
  "Add_loop i t sig d ts =
    (if i < 4 then
       (let p = sig;
            ts = ts[t := ts ! t @ [\<lparr>hash = p, docid = d\<rparr>]];
            t = t + 1;
            p = (sig AND 0xffff000000ffffff) OR drop_bit 12 (sig AND 0x0000fff000000000)
                  OR push_bit 12 (sig AND 0x0000000fff000000);
            ts = ts[t := ts ! t @ [\<lparr>hash = p, docid = d\<rparr>]];
            t = t + 1;
            p = (sig AND 0xffff000fff000fff) OR drop_bit 24 (sig AND 0x0000fff000000000)
                  OR push_bit 24 (sig AND 0x0000000000fff000);
            ts = ts[t := ts ! t @ [\<lparr>hash = p, docid = d\<rparr>]];
            t = t + 1;
            p = (sig AND 0xffff000ffffff000) OR drop_bit 36 (sig AND 0x0000fff000000000)
                  OR push_bit 36 (sig AND 0x0000000000000fff);
            ts = ts[t := ts ! t @ [\<lparr>hash = p, docid = d\<rparr>]];
            t = t + 1;
            sig = push_bit 16 sig OR drop_bit (64 - 16) sig
        in Add_loop (i + 1) t sig d ts)
     else ts)"
  by pat_completeness auto
termination
  by (relation "measure (\<lambda>(i, t, sig, d, ts). 4 - i)") auto

definition Add :: "u64 \<Rightarrow> u64 \<Rightarrow> Store \<Rightarrow> Store" where
  "Add sig d s = s\<lparr>tables := Add_loop 0 0 sig d (tables s)\<rparr>"

section \<open>Store.Finish\<close>

text \<open>
  \<open>Finish\<close> runs \<open>sort.Sort\<close> on every table, ordering by \<open>Less(i, j) = t[i].hash < t[j].hash\<close>.
  The goroutines work on disjoint tables and are joined before the return, so the effect
  is that of sorting the tables one after the other. \<open>sort.Sort\<close> is not stable: it may
  leave entries of equal hash in any order. \<open>Finish\<close> below is the outcome that keeps
  them in insertion order; \<open>Finish_returns\<close> describes every outcome \<open>sort.Sort\<close> allows.
\<close>

definition Finish :: "Store \<Rightarrow> Store" where
  "Finish s = s\<lparr>tables := map (sort_key hash) (tables s)\<rparr>"

definition Finish_returns :: "Store \<Rightarrow> Store \<Rightarrow> bool" where
  "Finish_returns s s' \<longleftrightarrow>
     length (tables s') = length (tables s) \<and>
     list_all (\<lambda>i. mset (tables s' ! i) = mset (tables s ! i) \<and>
                   sorted (map hash (tables s' ! i))) [0..<length (tables s)]"

section \<open>Store.Find\<close>

text \<open>The probing loop of \<open>Find\<close>, which appends the result of every table to \<open>ids\<close>.\<close>

function Find_loop :: "nat \<Rightarrow> nat \<Rightarrow> u64 \<Rightarrow> table list \<Rightarrow> u64 list \<Rightarrow> u64 list" where
  "Find_loop i t sig ts ids =
    (if i < 4 then
       (let p = sig;
            ids = ids @ table_find (ts ! t) p;
            t = t + 1;
            p = (sig AND 0xffff000000ffffff) OR drop_bit 12 (sig AND 0x0000fff000000000)
                  OR push_bit 12 (sig AND 0x0000000fff000000);
            ids = ids @ table_find (ts ! t) p;
            t = t + 1;
            p = (sig AND 0xffff000fff000fff) OR drop_bit 24 (sig AND 0x0000fff000000000)
                  OR push_bit 24 (sig AND 0x0000000000fff000);
            ids = ids @ table_find (ts ! t) p;
            t = t + 1;
            p = (sig AND 0xffff000ffffff000) OR drop_bit 36 (sig AND 0x0000fff000000000)
                  OR push_bit 36 (sig AND 0x0000000000000fff);
            ids = ids @ table_find (ts ! t) p;
            t = t + 1;
            sig = push_bit 16 sig OR drop_bit (64 - 16) sig
        in Find_loop (i + 1) t sig ts ids)
     else ids)"
  by pat_completeness auto
termination
  by (relation "measure (\<lambda>(i, t, sig, ts, ids). 4 - i)") auto

text \<open>
  The map \<open>uniq map[uint64]struct{}\<close> carries no values, so it is modelled by its keys,
  each held once. \<open>uniq_insert\<close> is the assignment \<open>uniq[id] = struct{}{}\<close>.
\<close>

definition uniq_insert :: "u64 \<Rightarrow> u64 list \<Rightarrow> u64 list" where
  "uniq_insert k ks = (if k \<in> set ks then ks else ks @ [k])"

text \<open>
  \<open>Find\<close>: probe, insert every id into \<open>uniq\<close>, then range over \<open>uniq\<close>. Go leaves the
  iteration order of a map unspecified; \<open>Find\<close> lists the keys in the order of their first
  insertion, and \<open>Find_returns\<close> admits every order of the same keys.
\<close>

definition Find :: "Store \<Rightarrow> u64 \<Rightarrow> u64 list" where
  "Find s sig =
    (let ids = Find_loop 0 0 sig (tables s) [];
         uniq = fold uniq_insert ids []
     in uniq)"

definition Find_returns :: "Store \<Rightarrow> u64 \<Rightarrow> u64 list \<Rightarrow> bool" where
  "Find_returns s sig ids \<longleftrightarrow> mset ids = mset (Find s sig)"

section \<open>Callers of the store\<close>

text \<open>
  The loader of \<open>simd\<close> calls \<open>store.Add(sig, id)\<close> once per input line, in order.
\<close>

definition Add_all :: "(u64 \<times> u64) list \<Rightarrow> Store \<Rightarrow> Store" where
  "Add_all xs s = fold (\<lambda>(sig, d) s. Add sig d s) xs s"

text \<open>
  The hash that \<open>Add\<close> stores in table \<open>t\<close> for a signature: read off the entry that
  \<open>Add\<close> appends to table \<open>t\<close> of the empty store.
\<close>

definition Add_hash :: "nat \<Rightarrow> u64 \<Rightarrow> u64" where
  "Add_hash t x = hash (last (tables (Add x 0 empty_Store) ! t))"

text \<open>
  A call of one of the three methods, with the store it leaves behind and the value it
  returns (\<open>Add\<close> and \<open>Finish\<close> return nothing, \<open>Find\<close> leaves the store as it
  is). The result type has room for the failure the specification names, but no
  statement of \<open>Add\<close>, \<open>Finish\<close>, \<open>Find\<close> or \<open>table.find\<close> panics or returns an
  error: every index is in range, and the store holds no phase marker to test.
\<close>

datatype op = OpAdd u64 u64 | OpFinish | OpFind u64

datatype error = PhaseViolation

fun call :: "op \<Rightarrow> Store \<Rightarrow> error + (Store \<times> u64 list)" where
  "call (OpAdd sig d) s = Inr (Add sig d s, [])"
| "call OpFinish s = Inr (Finish s, [])"
| "call (OpFind q) s = Inr (s, Find s q)"

fun run :: "op list \<Rightarrow> Store \<Rightarrow> error + Store" where
  "run [] s = Inr s"
| "run (c # cs) s = (case call c s of Inl e \<Rightarrow> Inl e | Inr (s', out) \<Rightarrow> run cs s')"

text \<open>The pairs that the \<open>Add\<close> calls of a call sequence insert, in order.\<close>

fun adds_of :: "op list \<Rightarrow> (u64 \<times> u64) list" where
  "adds_of [] = []"
| "adds_of (OpAdd sig d # cs) = (sig, d) # adds_of cs"
| "adds_of (c # cs) = adds_of cs"

declare Search_loop.simps [simp del] find_scan.simps [simp del]

declare Add_loop.simps [simp del] Find_loop.simps [simp del]

section \<open>Specification-level notions\<close>

text \<open>
  The population count of a 64-bit word: the number of bit positions that are set.
  The Hamming distance of two words is the population count of their exclusive or.
\<close>

definition popcount :: "u64 \<Rightarrow> nat" where
  "popcount w = length (filter (bit w) [0..<64])"

text \<open>
  The permutation family of the specification. \<open>ROTL64 x k\<close> rotates the word left by
  \<open>k\<close> bits. \<open>block_swap lo x\<close> exchanges the 12-bit block \<open>HI\<close> at bits \<open>[36..48)\<close> with
  the 12-bit block \<open>LO\<close> at bits \<open>[lo..lo+12)\<close> and keeps every other bit. Variant A is
  the identity, variants B, C and D swap with the block at offset 24, 12 and 0.
  Table \<open>t = 4 * i + v\<close> is bound to rotation \<open>i\<close> and variant \<open>v\<close>.
\<close>

definition ROTL64 :: "u64 \<Rightarrow> nat \<Rightarrow> u64" where
  "ROTL64 x k = word_rotl k x"

definition block_swap :: "nat \<Rightarrow> u64 \<Rightarrow> u64" where
  "block_swap lo x =
    (let HI = take_bit 12 (drop_bit 36 x);
         LO = take_bit 12 (drop_bit lo x);
         rest = x AND NOT (push_bit 36 (mask 12)) AND NOT (push_bit lo (mask 12))
     in rest OR push_bit 36 LO OR push_bit lo HI)"

definition variant :: "nat \<Rightarrow> u64 \<Rightarrow> u64" where
  "variant v x =
    (if v = 0 then x
     else if v = 1 then block_swap 24 x
     else if v = 2 then block_swap 12 x
     else block_swap 0 x)"

definition pi_spec :: "nat \<Rightarrow> u64 \<Rightarrow> u64" where
  "pi_spec t x = variant (t mod 4) (ROTL64 x (16 * (t div 4)))"

text \<open>The inverse of \<open>pi_spec t\<close>: undo the block swap, then rotate back.\<close>

definition pi_spec_inv :: "nat \<Rightarrow> u64 \<Rightarrow> u64" where
  "pi_spec_inv t y = word_rotr (16 * (t div 4)) (variant (t mod 4) y)"

section \<open>Auxiliary notions for the proofs\<close>

text \<open>
  The bit-counting steps of \<open>distance\<close> read on natural numbers, over a word of \<open>n\<close>
  bytes: \<open>rep_byte c n\<close> is the constant whose \<open>n\<close> bytes all equal \<open>c\<close>, the
  \<open>swar_step\<close> functions are the three masking steps, the \<open>swar_byte\<close> functions
  their effect on a single byte, and \<open>byte_counts n X\<close> holds in every byte the number
  of bits set in the same byte of \<open>X\<close>.
\<close>

fun popcount_nat :: "nat \<Rightarrow> nat" where
  "popcount_nat n = (if n = 0 then 0 else n mod 2 + popcount_nat (n div 2))"

declare popcount_nat.simps [simp del]

primrec rep_byte :: "nat \<Rightarrow> nat \<Rightarrow> nat" where
  "rep_byte c 0 = 0"
| "rep_byte c (Suc n) = c + 256 * rep_byte c n"

definition swar_byte1 :: "nat \<Rightarrow> nat" where "swar_byte1 a = a - ((a div 2) AND 0x55)"

definition swar_byte2 :: "nat \<Rightarrow> nat" where "swar_byte2 a = ((a div 4) AND 0x33) + (a AND 0x33)"

definition swar_byte3 :: "nat \<Rightarrow> nat" where "swar_byte3 a = (a + a div 16) AND 0x0f"

definition swar_step1 :: "nat \<Rightarrow> nat \<Rightarrow> nat" where "swar_step1 n X = X - ((X div 2) AND rep_byte 0x55 n)"

definition swar_step2 :: "nat \<Rightarrow> nat \<Rightarrow> nat" where "swar_step2 n X = ((X div 4) AND rep_byte 0x33 n) + (X AND rep_byte 0x33 n)"

definition swar_step3 :: "nat \<Rightarrow> nat \<Rightarrow> nat" where "swar_step3 n X = (X + X div 16) AND rep_byte 0x0f n"

primrec byte_counts :: "nat \<Rightarrow> nat \<Rightarrow> nat" where
  "byte_counts 0 X = 0"
| "byte_counts (Suc n) X = popcount_nat (X mod 256) + 256 * byte_counts n (X div 256)"


text \<open>
  Names for the expressions that the bodies of \<open>Add\<close> and \<open>Find\<close> spell out inline:
  the rotation by 16 bits, the three block swaps, and the hash computed for table
  \<open>t\<close> in round \<open>t div 4\<close> of the loop. \<open>swap_idx\<close> and \<open>rot_idx\<close> say where bit \<open>n\<close>
  of a permuted word comes from.
\<close>

definition rot16 :: "u64 \<Rightarrow> u64" where
  "rot16 sig = push_bit 16 sig OR drop_bit (64 - 16) sig"

definition permB :: "u64 \<Rightarrow> u64" where
  "permB sig = (sig AND 0xffff000000ffffff) OR drop_bit 12 (sig AND 0x0000fff000000000)
                  OR push_bit 12 (sig AND 0x0000000fff000000)"

definition permC :: "u64 \<Rightarrow> u64" where
  "permC sig = (sig AND 0xffff000fff000fff) OR drop_bit 24 (sig AND 0x0000fff000000000)
                  OR push_bit 24 (sig AND 0x0000000000fff000)"

definition permD :: "u64 \<Rightarrow> u64" where
  "permD sig = (sig AND 0xffff000ffffff000) OR drop_bit 36 (sig AND 0x0000fff000000000)
                  OR push_bit 36 (sig AND 0x0000000000000fff)"

primrec rot_iter :: "nat \<Rightarrow> u64 \<Rightarrow> u64" where
  "rot_iter 0 x = x"
| "rot_iter (Suc i) x = rot16 (rot_iter i x)"

definition perm_variant :: "nat \<Rightarrow> u64 \<Rightarrow> u64" where
  "perm_variant v x = (if v = 0 then x else if v = 1 then permB x else if v = 2 then permC x else permD x)"

definition table_perm :: "nat \<Rightarrow> u64 \<Rightarrow> u64" where
  "table_perm t x = perm_variant (t mod 4) (rot_iter (t div 4) x)"

definition swap_idx :: "nat \<Rightarrow> nat \<Rightarrow> nat" where
  "swap_idx off n = (if 36 \<le> n \<and> n < 48 then n - 36 + off else if off \<le> n \<and> n < off + 12 then n - off + 36 else n)"

definition rot_idx :: "nat \<Rightarrow> nat" where
  "rot_idx n = (if n < 16 then n + 48 else n - 16)"

text \<open>
  \<open>entry_of t (sig, d)\<close> is the entry that \<open>Add sig d\<close> appends to table \<open>t\<close>.
  \<open>store_inv xs s\<close>: the store has 16 tables, and table \<open>t\<close> holds, in some order,
  exactly the entries of the pairs \<open>xs\<close> added so far.
\<close>

definition entry_of :: "nat \<Rightarrow> u64 \<times> u64 \<Rightarrow> entry" where
  "entry_of t p = \<lparr>hash = table_perm t (fst p), docid = snd p\<rparr>"

definition store_inv :: "(u64 \<times> u64) list \<Rightarrow> Store \<Rightarrow> bool" where
  "store_inv xs s \<longleftrightarrow> length (tables s) = 16 \<and>
     list_all (\<lambda>t. mset (tables s ! t) = mset (map (entry_of t) xs)) [0..<16]"

section \<open>Bit counting: \<open>distance\<close> is the Hamming distance\<close>

text \<open>
  The three masking steps of \<open>distance\<close> act on every byte of the word in the same
  way and without carries between bytes. Their effect on one byte is checked for all
  256 bytes; an induction on the number of bytes lifts it to the word. The final
  multiplication adds the eight byte counts up in the top byte.
\<close>

lemma div2_byte_split: "(a + 256 * b) div 2 = (a div 2 + 128 * (b mod 2)) + 256 * (b div 2)" for a b :: nat
proof -
  have "(a + 256 * b) div 2 = a div 2 + 128 * b" by simp
  moreover have "128 * b = 128 * (b mod 2) + 256 * (b div 2)"
    using div_mult_mod_eq [of b 2] by linarith
  ultimately show ?thesis by linarith
qed

lemma div4_byte_split: "(a + 256 * b) div 4 = (a div 4 + 64 * (b mod 4)) + 256 * (b div 4)" for a b :: nat
proof -
  have "(a + 256 * b) div 4 = a div 4 + 64 * b" by simp
  moreover have "64 * b = 64 * (b mod 4) + 256 * (b div 4)"
    using div_mult_mod_eq [of b 4] by linarith
  ultimately show ?thesis by linarith
qed

lemma fold16_byte_split: "(a + 256 * b) + (a + 256 * b) div 16 = (a + a div 16 + 16 * (b mod 16)) + 256 * (b + b div 16)" for a b :: nat
proof -
  have "(a + 256 * b) div 16 = a div 16 + 16 * b" by simp
  moreover have "16 * b = 16 * (b mod 16) + 256 * (b div 16)"
    using div_mult_mod_eq [of b 16] by linarith
  ultimately show ?thesis by (simp add: distrib_left)
qed

lemma low_byte_div2_bound: "a < 256 \<Longrightarrow> a div 2 + 128 * (b mod 2) < 256" for a b :: nat
proof -
  assume "a < 256"
  then have "a div 2 < 128" by simp
  moreover have "b mod 2 < 2" by simp
  ultimately show ?thesis by linarith
qed

lemma low_byte_div4_bound: "a < 256 \<Longrightarrow> a div 4 + 64 * (b mod 4) < 256" for a b :: nat
proof -
  assume "a < 256"
  then have "a div 4 < 64" by simp
  moreover have "b mod 4 < 4" by simp
  ultimately show ?thesis by linarith
qed

lemma low_byte_fold_bound: "a \<le> 0x44 \<Longrightarrow> b mod 16 \<le> 4 \<Longrightarrow> a + a div 16 + 16 * (b mod 16) < 256" for a b :: nat
proof -
  assume "a \<le> 0x44" "b mod 16 \<le> 4"
  moreover have "a div 16 \<le> a" by simp
  ultimately show ?thesis by linarith
qed

lemma low_byte_div4_mod: "a < 256 \<Longrightarrow> (a div 4 + 64 * (b mod 4)) mod 2 ^ 6 = a div 4" for a b :: nat
  by simp

lemma low_byte_fold_mod: "(a + a div 16 + 16 * (b mod 16)) mod 2 ^ 4 = (a + a div 16) mod 2 ^ 4" for a b :: nat
  by simp

lemma low_byte_div2_mod: "a < 256 \<Longrightarrow> (a div 2 + 128 * (b mod 2)) mod 2 ^ 7 = a div 2" for a b :: nat
  by simp

lemma byte_split: "(x::nat) = take_bit 8 x + 256 * drop_bit 8 x"
  by (simp add: take_bit_eq_mod drop_bit_eq_div)

lemma take_bit8_low: "a < 256 \<Longrightarrow> take_bit 8 (a + 256 * (b::nat)) = a"
  by (simp add: take_bit_eq_mod)

lemma drop_bit8_low: "a < 256 \<Longrightarrow> drop_bit 8 (a + 256 * (b::nat)) = b"
  by (simp add: drop_bit_eq_div)

lemma and_byte_split: 
  assumes "a < 256" "c < 256"
  shows "(a + 256 * b) AND (c + 256 * d) = (a AND c) + 256 * (b AND (d::nat))"
proof -
  let ?x = "(a + 256 * b) AND (c + 256 * d)"
  have "take_bit 8 ?x = a AND c"
    using assms by (simp add: take_bit8_low)
  moreover have "drop_bit 8 ?x = b AND d"
    using assms by (simp add: drop_bit8_low)
  ultimately show ?thesis
    using byte_split [of ?x] by simp
qed

lemma and_low_mask: 
  fixes x m :: nat
  assumes "m < 2 ^ k"
  shows "x AND m = (x mod 2 ^ k) AND m"
proof -
  have "take_bit k m = m" using assms by (rule take_bit_nat_eq_self)
  then have "x AND m = x AND (m AND mask k)" by (simp add: take_bit_eq_mask)
  also have "\<dots> = (x AND mask k) AND m" by (simp add: ac_simps)
  finally show ?thesis by (simp add: take_bit_eq_mask [symmetric] take_bit_eq_mod)
qed

lemma and_le_nat: "(x::nat) AND y \<le> x"
proof -
  have "int x AND int y \<le> int x" by simp
  then show ?thesis by (metis of_nat_and_eq of_nat_le_iff)
qed

lemma swar_step1_rec:
  assumes "a < 256"
  shows "swar_step1 (Suc n) (a + 256 * b) = swar_byte1 a + 256 * swar_step1 n b"
proof -
  define lo where "lo = a div 2 + 128 * (b mod 2)"
  have lo: "lo < 256" unfolding lo_def using assms by (rule low_byte_div2_bound)
  have d: "(a + 256 * b) div 2 = lo + 256 * (b div 2)"
    unfolding lo_def by (rule div2_byte_split)
  have "lo mod 2 ^ 7 = a div 2" unfolding lo_def using assms by (rule low_byte_div2_mod)
  then have l: "lo AND 0x55 = (a div 2) AND 0x55"
    using and_low_mask [of "0x55" 7 lo] by simp
  have "((a + 256 * b) div 2) AND rep_byte 0x55 (Suc n) = (lo AND 0x55) + 256 * ((b div 2) AND rep_byte 0x55 n)"
    unfolding d rep_byte.simps by (rule and_byte_split [OF lo]) simp
  then have e: "((a + 256 * b) div 2) AND rep_byte 0x55 (Suc n) = ((a div 2) AND 0x55) + 256 * ((b div 2) AND rep_byte 0x55 n)"
    using l by simp
  have "(a div 2) AND 0x55 \<le> a div 2" by (rule and_le_nat)
  then have f: "(a div 2) AND 0x55 \<le> a" by linarith
  have "(b div 2) AND rep_byte 0x55 n \<le> b div 2" by (rule and_le_nat)
  then have g: "(b div 2) AND rep_byte 0x55 n \<le> b" by linarith
  show ?thesis
    unfolding swar_step1_def swar_byte1_def e using f g by linarith
qed

lemma swar_step2_rec:
  assumes "a < 256"
  shows "swar_step2 (Suc n) (a + 256 * b) = swar_byte2 a + 256 * swar_step2 n b"
proof -
  define lo where "lo = a div 4 + 64 * (b mod 4)"
  have lo: "lo < 256" unfolding lo_def using assms by (rule low_byte_div4_bound)
  have d: "(a + 256 * b) div 4 = lo + 256 * (b div 4)"
    unfolding lo_def by (rule div4_byte_split)
  have "lo mod 2 ^ 6 = a div 4" unfolding lo_def using assms by (rule low_byte_div4_mod)
  then have l: "lo AND 0x33 = (a div 4) AND 0x33"
    using and_low_mask [of "0x33" 6 lo] by simp
  have "((a + 256 * b) div 4) AND rep_byte 0x33 (Suc n) = (lo AND 0x33) + 256 * ((b div 4) AND rep_byte 0x33 n)"
    unfolding d rep_byte.simps by (rule and_byte_split [OF lo]) simp
  then have e: "((a + 256 * b) div 4) AND rep_byte 0x33 (Suc n) = ((a div 4) AND 0x33) + 256 * ((b div 4) AND rep_byte 0x33 n)"
    using l by simp
  have f: "(a + 256 * b) AND rep_byte 0x33 (Suc n) = (a AND 0x33) + 256 * (b AND rep_byte 0x33 n)"
    unfolding rep_byte.simps by (rule and_byte_split [OF assms]) simp
  show ?thesis
    unfolding swar_step2_def swar_byte2_def e f by (simp add: distrib_left)
qed

lemma swar_step3_rec:
  assumes "a \<le> 0x44" "b mod 16 \<le> 4"
  shows "swar_step3 (Suc n) (a + 256 * b) = swar_byte3 a + 256 * swar_step3 n b"
proof -
  define lo where "lo = a + a div 16 + 16 * (b mod 16)"
  have lo: "lo < 256" unfolding lo_def using assms by (rule low_byte_fold_bound)
  have d: "(a + 256 * b) + (a + 256 * b) div 16 = lo + 256 * (b + b div 16)"
    unfolding lo_def by (rule fold16_byte_split)
  have "lo mod 2 ^ 4 = (a + a div 16) mod 2 ^ 4" unfolding lo_def by (rule low_byte_fold_mod)
  then have l: "lo AND 0x0f = (a + a div 16) AND 0x0f"
    using and_low_mask [of "0x0f" 4 lo] and_low_mask [of "0x0f" 4 "a + a div 16"] by simp
  have "((a + 256 * b) + (a + 256 * b) div 16) AND rep_byte 0x0f (Suc n) = (lo AND 0x0f) + 256 * ((b + b div 16) AND rep_byte 0x0f n)"
    unfolding d rep_byte.simps by (rule and_byte_split [OF lo]) simp
  then show ?thesis
    unfolding swar_step3_def swar_byte3_def l .
qed

lemma less_16_cases: "l < 16 \<Longrightarrow> l = 0 \<or> l = 1 \<or> l = 2 \<or> l = 3 \<or> l = 4 \<or> l = 5 \<or> l = 6 \<or> l = 7 \<or> l = 8 \<or> l = 9 \<or> l = 10 \<or> l = 11 \<or> l = 12 \<or> l = 13 \<or> l = 14 \<or> l = (15::nat)"
  by arith

lemma popcount_nat_numeral [simp]:
  "popcount_nat 0 = 0"
  "popcount_nat (Suc 0) = Suc 0"
  "popcount_nat (Suc (Suc 0)) = Suc 0"
  "popcount_nat (numeral k) = numeral k mod 2 + popcount_nat (numeral k div 2)"
     apply (simp add: popcount_nat.simps [of 0])
    apply (simp add: popcount_nat.simps [of "Suc 0"] popcount_nat.simps [of 0])
   apply (simp add: popcount_nat.simps [of "Suc (Suc 0)"] popcount_nat.simps [of "Suc 0"] popcount_nat.simps [of 0])
  apply (simp add: popcount_nat.simps [of "numeral k"])
  done

lemma Suc_and_15 [simp]: "Suc (Suc 0) AND 15 = 2" "Suc (Suc (Suc 0)) AND 15 = 3"
  by (simp_all add: numeral_2_eq_2 [symmetric] numeral_3_eq_3 [symmetric])

lemma all_less_16: "(\<forall>l<16::nat. Q l) \<longleftrightarrow> Q 0 \<and> Q 1 \<and> Q 2 \<and> Q 3 \<and> Q 4 \<and> Q 5 \<and> Q 6 \<and> Q 7 \<and> Q 8 \<and> Q 9 \<and> Q 10 \<and> Q 11 \<and> Q 12 \<and> Q 13 \<and> Q 14 \<and> Q 15"
proof
  assume "\<forall>l<16. Q l"
  then show "Q 0 \<and> Q 1 \<and> Q 2 \<and> Q 3 \<and> Q 4 \<and> Q 5 \<and> Q 6 \<and> Q 7 \<and> Q 8 \<and> Q 9 \<and> Q 10 \<and> Q 11 \<and> Q 12 \<and> Q 13 \<and> Q 14 \<and> Q 15"
    by simp
next
  assume r: "Q 0 \<and> Q 1 \<and> Q 2 \<and> Q 3 \<and> Q 4 \<and> Q 5 \<and> Q 6 \<and> Q 7 \<and> Q 8 \<and> Q 9 \<and> Q 10 \<and> Q 11 \<and> Q 12 \<and> Q 13 \<and> Q 14 \<and> Q 15"
  show "\<forall>l<16. Q l"
  proof (intro allI impI)
    fix l :: nat assume "l < 16"
    then have "l = 0 \<or> l = 1 \<or> l = 2 \<or> l = 3 \<or> l = 4 \<or> l = 5 \<or> l = 6 \<or> l = 7 \<or> l = 8 \<or> l = 9 \<or> l = 10 \<or> l = 11 \<or> l = 12 \<or> l = 13 \<or> l = 14 \<or> l = 15"
      by (rule less_16_cases)
    with r show "Q l" by blast
  qed
qed

lemma bytes_ok: "\<forall>h<16. \<forall>l<16. swar_byte3 (swar_byte2 (swar_byte1 (16 * h + l))) = popcount_nat (16 * h + l) \<and> swar_byte2 (swar_byte1 (16 * h + l)) \<le> 0x44 \<and> swar_byte2 (swar_byte1 (16 * h + l)) mod 16 \<le> 4"
  unfolding all_less_16 by (simp add: swar_byte1_def swar_byte2_def swar_byte3_def)

lemma byte_facts:
  assumes "a < 256"
  shows "swar_byte3 (swar_byte2 (swar_byte1 a)) = popcount_nat a" "swar_byte2 (swar_byte1 a) \<le> 0x44" "swar_byte2 (swar_byte1 a) mod 16 \<le> 4"
proof -
  have h: "a div 16 < 16" using assms by simp
  have l: "a mod 16 < 16" by simp
  have "16 * (a div 16) + a mod 16 = a" by simp
  with bytes_ok h l have "swar_byte3 (swar_byte2 (swar_byte1 a)) = popcount_nat a \<and> swar_byte2 (swar_byte1 a) \<le> 0x44 \<and> swar_byte2 (swar_byte1 a) mod 16 \<le> 4"
    by metis
  then show "swar_byte3 (swar_byte2 (swar_byte1 a)) = popcount_nat a" "swar_byte2 (swar_byte1 a) \<le> 0x44" "swar_byte2 (swar_byte1 a) mod 16 \<le> 4"
    by blast+
qed

lemma mod16_byte: "(x + 256 * y) mod 16 = x mod (16::nat)"
proof -
  have "x + 256 * y = x + 16 * (16 * y)" by simp
  show ?thesis unfolding \<open>x + 256 * y = x + 16 * (16 * y)\<close> by (rule mod_mult_self2)
qed

lemma swar_byte1_le: "swar_byte1 a \<le> a"
  by (simp add: swar_byte1_def)

lemma swar_step21_rec:
  assumes "a < 256"
  shows "swar_step2 (Suc n) (swar_step1 (Suc n) (a + 256 * b)) = swar_byte2 (swar_byte1 a) + 256 * swar_step2 n (swar_step1 n b)"
proof -
  have "swar_byte1 a < 256" using swar_byte1_le [of a] assms by linarith
  then show ?thesis unfolding swar_step1_rec [OF assms] by (rule swar_step2_rec)
qed

lemma byte_decomposition: "(X::nat) = X mod 256 + 256 * (X div 256)"
  by simp

lemma swar_step21_low_nibble: "swar_step2 n (swar_step1 n X) mod 16 \<le> 4"
proof (cases n)
  case 0
  then show ?thesis by (simp add: swar_step2_def)
next
  case (Suc m)
  have a: "X mod 256 < 256" by simp
  have "swar_step2 n (swar_step1 n X) = swar_byte2 (swar_byte1 (X mod 256)) + 256 * swar_step2 m (swar_step1 m (X div 256))"
    unfolding Suc using swar_step21_rec [OF a, of m "X div 256"] by simp
  then have "swar_step2 n (swar_step1 n X) mod 16 = swar_byte2 (swar_byte1 (X mod 256)) mod 16"
    by (simp only: mod16_byte)
  then show ?thesis using byte_facts(3) [OF a] by simp
qed

lemma swar_steps_byte_counts: "swar_step3 n (swar_step2 n (swar_step1 n X)) = byte_counts n X"
proof (induction n arbitrary: X)
  case 0
  then show ?case by (simp add: swar_step3_def)
next
  case (Suc n)
  have a: "X mod 256 < 256" by simp
  have "swar_step2 (Suc n) (swar_step1 (Suc n) X) = swar_byte2 (swar_byte1 (X mod 256)) + 256 * swar_step2 n (swar_step1 n (X div 256))"
    using swar_step21_rec [OF a, of n "X div 256"] by simp
  then have "swar_step3 (Suc n) (swar_step2 (Suc n) (swar_step1 (Suc n) X)) = swar_byte3 (swar_byte2 (swar_byte1 (X mod 256))) + 256 * swar_step3 n (swar_step2 n (swar_step1 n (X div 256)))"
    using swar_step3_rec [OF byte_facts(2) [OF a] swar_step21_low_nibble, of n n "X div 256"] by simp
  then show ?case
    using Suc.IH [of "X div 256"] byte_facts(1) [OF a] by simp
qed

lemma popcount_nat_rec: "popcount_nat x = x mod 2 + popcount_nat (x div 2)"
  by (cases "x = 0") (simp_all add: popcount_nat.simps [of x] popcount_nat.simps [of 0])

lemma popcount_nat_shift: "a < 2 ^ k \<Longrightarrow> popcount_nat (a + 2 ^ k * b) = popcount_nat a + popcount_nat b"
proof (induction k arbitrary: a)
  case 0
  then show ?case by simp
next
  case (Suc k)
  have h: "a div 2 < 2 ^ k" using Suc.prems by simp
  have "(a + 2 ^ Suc k * b) mod 2 = a mod 2"
    by (simp add: mod_add_eq [symmetric] del: mod_add_eq) 
  moreover have "(a + 2 ^ Suc k * b) div 2 = a div 2 + 2 ^ k * b" by simp
  ultimately have "popcount_nat (a + 2 ^ Suc k * b) = a mod 2 + popcount_nat (a div 2 + 2 ^ k * b)"
    using popcount_nat_rec [of "a + 2 ^ Suc k * b"] by simp
  also have "\<dots> = a mod 2 + (popcount_nat (a div 2) + popcount_nat b)"
    using Suc.IH [OF h] by simp
  also have "\<dots> = popcount_nat a + popcount_nat b"
    using popcount_nat_rec [of a] by simp
  finally show ?case .
qed

lemma popcount_nat_le: "a < 2 ^ k \<Longrightarrow> popcount_nat a \<le> k"
proof (induction k arbitrary: a)
  case 0
  then show ?case by simp
next
  case (Suc k)
  have h: "a div 2 < 2 ^ k" using Suc.prems by simp
  have "a mod 2 \<le> 1" by simp
  then show ?case using Suc.IH [OF h] popcount_nat_rec [of a] by linarith
qed

lemma popcount_nat_byte_le: "popcount_nat (x mod 256) \<le> 8"
proof -
  have "x mod 256 < 2 ^ 8" by simp
  then show ?thesis by (rule popcount_nat_le)
qed

lemma popcount_nat_bytes: "popcount_nat x = popcount_nat (x mod 256) + popcount_nat (x div 256)"
proof -
  have "x mod 256 < 2 ^ 8" by simp
  then have "popcount_nat (x mod 256 + 2 ^ 8 * (x div 256)) = popcount_nat (x mod 256) + popcount_nat (x div 256)"
    by (rule popcount_nat_shift)
  then show ?thesis by simp
qed

lemma popcount_nat_filter: "X < 2 ^ k \<Longrightarrow> popcount_nat X = length (filter (bit X) [0..<k])"
proof (induction k arbitrary: X)
  case 0
  then show ?case by simp
next
  case (Suc k)
  have h: "X div 2 < 2 ^ k" using Suc.prems by simp
  have "[0..<Suc k] = 0 # map Suc [0..<k]"
    by (simp add: upt_conv_Cons map_Suc_upt del: upt_Suc)
  then have "filter (bit X) [0..<Suc k] = (if odd X then [0] else []) @ map Suc (filter (bit (X div 2)) [0..<k])"
    by (simp add: filter_map comp_def bit_Suc bit_0 del: upt_Suc)
  then have "length (filter (bit X) [0..<Suc k]) = X mod 2 + length (filter (bit (X div 2)) [0..<k])"
    by (simp add: odd_iff_mod_2_eq_one del: upt_Suc)
  then show ?case using Suc.IH [OF h] popcount_nat_rec [of X] by simp
qed

lemma sum_by_multiplication:
  fixes c0 c1 c2 c3 c4 c5 c6 c7 :: nat
  assumes "c0 \<le> 8" "c1 \<le> 8" "c2 \<le> 8" "c3 \<le> 8" "c4 \<le> 8" "c5 \<le> 8" "c6 \<le> 8" "c7 \<le> 8"
  shows "((c0 + 256 * (c1 + 256 * (c2 + 256 * (c3 + 256 * (c4 + 256 * (c5 + 256 * (c6 + 256 * c7))))))) * 0x0101010101010101) mod 2 ^ 64 div 2 ^ 56
          = c0 + c1 + c2 + c3 + c4 + c5 + c6 + c7"
proof -
  define Z where "Z = c0 + 256 * (c1 + 256 * (c2 + 256 * (c3 + 256 * (c4 + 256 * (c5 + 256 * (c6 + 256 * c7))))))"
  define L where "L = c0 + 256 * ((c0 + c1) + 256 * ((c0 + c1 + c2) + 256 * ((c0 + c1 + c2 + c3) + 256 * ((c0 + c1 + c2 + c3 + c4) + 256 * ((c0 + c1 + c2 + c3 + c4 + c5) + 256 * (c0 + c1 + c2 + c3 + c4 + c5 + c6))))))"
  define H where "H = (c1 + c2 + c3 + c4 + c5 + c6 + c7) + 256 * ((c2 + c3 + c4 + c5 + c6 + c7) + 256 * ((c3 + c4 + c5 + c6 + c7) + 256 * ((c4 + c5 + c6 + c7) + 256 * ((c5 + c6 + c7) + 256 * ((c6 + c7) + 256 * c7)))))"
  define s where "s = c0 + c1 + c2 + c3 + c4 + c5 + c6 + c7"
  have e: "Z * 0x0101010101010101 = (L + 2 ^ 56 * s) + 2 ^ 64 * H"
    unfolding Z_def L_def H_def s_def by (simp add: algebra_simps)
  have "L < 2 ^ 56" unfolding L_def using assms by simp
  moreover have "s < 256" unfolding s_def using assms by simp
  ultimately have b: "L + 2 ^ 56 * s < 2 ^ 64" by simp
  have "(Z * 0x0101010101010101) mod 2 ^ 64 = L + 2 ^ 56 * s"
    unfolding e using b by simp
  moreover have "(L + 2 ^ 56 * s) div 2 ^ 56 = s"
    using \<open>L < 2 ^ 56\<close> by simp
  ultimately show ?thesis unfolding Z_def [symmetric] s_def [symmetric] by simp
qed

lemma eight_Suc: "(8::nat) = Suc (Suc (Suc (Suc (Suc (Suc (Suc (Suc 0)))))))"
  by simp

lemma byte_counts_total:
  assumes "X < 2 ^ 64"
  shows "(byte_counts 8 X * 0x0101010101010101) mod 2 ^ 64 div 2 ^ 56 = popcount_nat X"
proof -
  define x1 where "x1 = X div 256"
  define x2 where "x2 = x1 div 256"
  define x3 where "x3 = x2 div 256"
  define x4 where "x4 = x3 div 256"
  define x5 where "x5 = x4 div 256"
  define x6 where "x6 = x5 div 256"
  define x7 where "x7 = x6 div 256"
  have "x7 div 256 = 0" using assms 
    unfolding x7_def x6_def x5_def x4_def x3_def x2_def x1_def by (simp add: div_mult2_eq [symmetric])
  then have z: "popcount_nat (x7 div 256) = 0" by simp
  have c: "byte_counts 8 X = popcount_nat (X mod 256) + 256 * (popcount_nat (x1 mod 256) + 256 * (popcount_nat (x2 mod 256) + 256 * (popcount_nat (x3 mod 256) + 256 * (popcount_nat (x4 mod 256) + 256 * (popcount_nat (x5 mod 256) + 256 * (popcount_nat (x6 mod 256) + 256 * popcount_nat (x7 mod 256)))))))"
    unfolding x7_def x6_def x5_def x4_def x3_def x2_def x1_def eight_Suc byte_counts.simps by simp
  have "popcount_nat X = popcount_nat (X mod 256) + popcount_nat (x1 mod 256) + popcount_nat (x2 mod 256) + popcount_nat (x3 mod 256) + popcount_nat (x4 mod 256) + popcount_nat (x5 mod 256) + popcount_nat (x6 mod 256) + popcount_nat (x7 mod 256)"
    using popcount_nat_bytes [of X] popcount_nat_bytes [of x1] popcount_nat_bytes [of x2] popcount_nat_bytes [of x3] popcount_nat_bytes [of x4] popcount_nat_bytes [of x5] popcount_nat_bytes [of x6] popcount_nat_bytes [of x7] z
    unfolding x7_def [symmetric] x6_def [symmetric] x5_def [symmetric] x4_def [symmetric] x3_def [symmetric] x2_def [symmetric] x1_def [symmetric] 
    by linarith
  then show ?thesis unfolding c
    using sum_by_multiplication [OF popcount_nat_byte_le popcount_nat_byte_le popcount_nat_byte_le popcount_nat_byte_le popcount_nat_byte_le popcount_nat_byte_le popcount_nat_byte_le popcount_nat_byte_le, of X x1 x2 x3 x4 x5 x6 x7]
    by simp
qed

lemma rep_byte_consts:
  "rep_byte 0x55 8 = 0x5555555555555555"
  "rep_byte 0x33 8 = 0x3333333333333333"
  "rep_byte 0x0f 8 = 0x0f0f0f0f0f0f0f0f"
  unfolding eight_Suc rep_byte.simps by simp_all

lemma and_le_nat2: "(x::nat) AND y \<le> y"
  using and_le_nat [of y x] by (simp add: ac_simps)

lemma unat_swar_consts:
  "unat (0x5555555555555555 :: u64) = 0x5555555555555555"
  "unat (0x3333333333333333 :: u64) = 0x3333333333333333"
  "unat (0x0f0f0f0f0f0f0f0f :: u64) = 0x0f0f0f0f0f0f0f0f"
  "unat (0x0101010101010101 :: u64) = 0x0101010101010101"
  by simp_all

lemma unat_drop_bit_div: "unat (drop_bit n x) = unat x div 2 ^ n"
  unfolding unat_drop_bit_eq by (rule drop_bit_eq_div)

lemma unat_drop_bits:
  fixes x :: u64
  shows "unat (drop_bit 1 x) = unat x div 2" "unat (drop_bit 2 x) = unat x div 4"
    "unat (drop_bit 4 x) = unat x div 16" "unat (drop_bit 56 x) = unat x div 2 ^ 56"
  using unat_drop_bit_div [of 1 x] unat_drop_bit_div [of 2 x] unat_drop_bit_div [of 4 x]
    unat_drop_bit_div [of 56 x] by simp_all

lemma unat_step1:
  fixes x :: u64
  shows "unat (x - (drop_bit 1 x AND 0x5555555555555555)) = swar_step1 8 (unat x)"
proof -
  have a: "unat (drop_bit 1 x AND 0x5555555555555555) = (unat x div 2) AND 0x5555555555555555"
    by (simp only: unsigned_and_eq unat_drop_bits unat_swar_consts)
  have "(unat x div 2) AND 0x5555555555555555 \<le> unat x div 2" by (rule and_le_nat)
  then have "unat (drop_bit 1 x AND 0x5555555555555555) \<le> unat x" unfolding a by linarith
  then have "drop_bit 1 x AND 0x5555555555555555 \<le> x" by (simp only: word_le_nat_alt)
  then have "unat (x - (drop_bit 1 x AND 0x5555555555555555)) = unat x - unat (drop_bit 1 x AND 0x5555555555555555)"
    by (rule unat_sub)
  then show ?thesis unfolding a swar_step1_def rep_byte_consts .
qed

lemma unat_step2:
  fixes x :: u64
  shows "unat ((drop_bit 2 x AND 0x3333333333333333) + (x AND 0x3333333333333333)) = swar_step2 8 (unat x)"
    and "unat ((drop_bit 2 x AND 0x3333333333333333) + (x AND 0x3333333333333333)) \<le> 0x6666666666666666"
proof -
  have a: "unat (drop_bit 2 x AND 0x3333333333333333) = (unat x div 4) AND 0x3333333333333333"
    by (simp only: unsigned_and_eq unat_drop_bits unat_swar_consts)
  have b: "unat (x AND 0x3333333333333333) = unat x AND 0x3333333333333333"
    by (simp add: unsigned_and_eq)
  have a': "(unat x div 4) AND 0x3333333333333333 \<le> 0x3333333333333333" by (rule and_le_nat2)
  have b': "unat x AND 0x3333333333333333 \<le> 0x3333333333333333" by (rule and_le_nat2)
  have "unat (drop_bit 2 x AND 0x3333333333333333) + unat (x AND 0x3333333333333333) < 2 ^ LENGTH(64)"
    unfolding a b using a' b' by simp
  then have c: "unat ((drop_bit 2 x AND 0x3333333333333333) + (x AND 0x3333333333333333))
       = unat (drop_bit 2 x AND 0x3333333333333333) + unat (x AND 0x3333333333333333)"
    by (simp only: unat_add_lem)
  show "unat ((drop_bit 2 x AND 0x3333333333333333) + (x AND 0x3333333333333333)) = swar_step2 8 (unat x)"
    unfolding c a b swar_step2_def rep_byte_consts ..
  show "unat ((drop_bit 2 x AND 0x3333333333333333) + (x AND 0x3333333333333333)) \<le> 0x6666666666666666"
    unfolding c a b using a' b' by linarith
qed

lemma unat_step3:
  fixes x :: u64
  assumes "unat x \<le> 0x6666666666666666"
  shows "unat ((x + drop_bit 4 x) AND 0x0f0f0f0f0f0f0f0f) = swar_step3 8 (unat x)"
proof -
  have a: "unat (drop_bit 4 x) = unat x div 16"
    by (rule unat_drop_bits)
  have "unat x div 16 \<le> 0x0666666666666666" using assms by simp
  then have "unat x + unat (drop_bit 4 x) < 2 ^ LENGTH(64)"
    unfolding a using assms by simp
  then have c: "unat (x + drop_bit 4 x) = unat x + unat x div 16"
    unfolding a [symmetric] by (simp only: unat_add_lem)
  show ?thesis
    by (simp only: unsigned_and_eq c unat_swar_consts swar_step3_def rep_byte_consts)
qed

lemma unat_step4:
  fixes x :: u64
  shows "unat (drop_bit 56 (x * 0x0101010101010101)) = (unat x * 0x0101010101010101) mod 2 ^ 64 div 2 ^ 56"
  by (simp only: unat_drop_bits unat_word_ariths unat_swar_consts) simp

lemma sint_small:
  fixes w :: u64
  assumes "unat w \<le> 64"
  shows "sint w = int (unat w)"
proof -
  from assms have "int (unat w) \<le> 64" by linarith
  then have "uint w \<le> 64" by simp
  then have "uint w < 2 ^ 63" by simp
  moreover have "- (2 ^ 63) \<le> uint w" by (rule order_trans [of _ 0]) simp_all
  ultimately have "signed_take_bit 63 (uint w) = uint w"
    by (simp only: signed_take_bit_int_eq_self)
  then show ?thesis unfolding sint_uint by simp
qed

lemma popcount_unat: "popcount w = popcount_nat (unat w)"
proof -
  have "unat w < 2 ^ 64" using unsigned_less [of w] by simp
  then have "popcount_nat (unat w) = length (filter (bit (unat w)) [0..<64])" by (rule popcount_nat_filter)
  also have "filter (bit (unat w)) [0..<64] = filter (bit w) [0..<64]"
    by (rule filter_cong) (simp_all add: bit_unsigned_iff)
  finally show ?thesis by (simp add: popcount_def)
qed

lemma popcount_card: "popcount w = card {n. bit w n}"
proof -
  have "{n. bit w n} = set (filter (bit w) [0..<64])"
    using bit_imp_le_length [of w] by auto
  moreover have "distinct (filter (bit w) [0..<64])" by simp
  ultimately show ?thesis
    unfolding popcount_def by (simp only: distinct_card)
qed

lemma popcount_le: "popcount w \<le> 64"
  unfolding popcount_def using length_filter_le [of "bit w" "[0..<64]"] by simp

text \<open>
  Claim C6 (popcount correctness). For all 64-bit words \<open>a\<close> and \<open>b\<close>, \<open>distance a b\<close>
  is the number of bit positions at which \<open>a\<close> and \<open>b\<close> differ, that is the population
  count of \<open>a XOR b\<close>; the statement has no side condition, so it covers the all-zeros
  and all-ones words.
\<close>

theorem distance_popcount: "distance a b = int (popcount (a XOR b))"
proof -
  define x where "x = a XOR b"
  define x1 where "x1 = x - (drop_bit 1 x AND 0x5555555555555555)"
  define x2 where "x2 = (drop_bit 2 x1 AND 0x3333333333333333) + (x1 AND 0x3333333333333333)"
  define x3 where "x3 = (x2 + drop_bit 4 x2) AND 0x0f0f0f0f0f0f0f0f"
  have d: "distance a b = sint (drop_bit 56 (x3 * 0x0101010101010101))"
    unfolding distance_def Let_def x3_def x2_def x1_def x_def ..
  have 1: "unat x1 = swar_step1 8 (unat x)" unfolding x1_def by (rule unat_step1)
  have 2: "unat x2 = swar_step2 8 (unat x1)" unfolding x2_def by (rule unat_step2(1))
  have "unat x2 \<le> 0x6666666666666666" unfolding x2_def by (rule unat_step2(2))
  then have 3: "unat x3 = swar_step3 8 (unat x2)" unfolding x3_def by (rule unat_step3)
  have "unat x3 = byte_counts 8 (unat x)" unfolding 3 2 1 by (rule swar_steps_byte_counts)
  moreover have "unat x < 2 ^ 64" using unsigned_less [of x] by simp
  ultimately have u: "unat (drop_bit 56 (x3 * 0x0101010101010101)) = popcount_nat (unat x)"
    unfolding unat_step4 using byte_counts_total by simp
  then have "unat (drop_bit 56 (x3 * 0x0101010101010101)) \<le> 64"
    using popcount_le [of x] by (simp add: popcount_unat)
  then have "sint (drop_bit 56 (x3 * 0x0101010101010101)) = int (popcount_nat (unat x))"
    unfolding u [symmetric] by (rule sint_small)
  then show ?thesis unfolding d x_def by (simp add: popcount_unat)
qed

section \<open>The sixteen permutations\<close>

text \<open>
  The loops of \<open>Add\<close> and \<open>Find\<close> are unrolled into their four rounds. Each rotation
  and block swap moves bits without changing them, which is stated bit by bit
  (\<open>bit_rot16\<close>, \<open>bit_permB\<close> and so on); from this follow the preservation of
  the population count, the agreement with the closed forms of the specification, and
  the coverage of every pattern of at most three differing bits.
\<close>

lemma upt_16: "[0..<16] = [0,Suc 0,Suc (Suc 0),3,4,5,6,7,8,9,10,11,12,13,14,15::nat]"
proof -
  have "[0..<16] = 0 # Suc 0 # [2..<16]"
    by (simp add: upt_rec [of 0] upt_rec [of "Suc 0"] numeral_2_eq_2 [symmetric])
  also have "[2..<16] = [Suc (Suc 0),3,4,5,6,7,8,9,10,11,12,13,14,15::nat]"
    by simp
  finally show ?thesis .
qed

lemma rot_iter_numeral:
  "rot_iter 1 x = rot16 x" "rot_iter 2 x = rot16 (rot16 x)" "rot_iter 3 x = rot16 (rot16 (rot16 x))"
  by (simp_all add: numeral_2_eq_2 numeral_3_eq_3)

lemma add_3_Suc: "t + 3 = Suc (Suc (Suc t))"
  by simp

lemma add_4_Suc: "t + 4 = Suc (Suc (Suc (Suc t)))"
  by simp

lemma Add_loop_step:
  "i < 4 \<Longrightarrow> Add_loop i t sig d ts =
     Add_loop (i + 1) (t + 4) (rot16 sig) d
       (let ts = ts[t := ts ! t @ [\<lparr>hash = sig, docid = d\<rparr>]];
            ts = ts[t + 1 := ts ! (t + 1) @ [\<lparr>hash = permB sig, docid = d\<rparr>]];
            ts = ts[t + 2 := ts ! (t + 2) @ [\<lparr>hash = permC sig, docid = d\<rparr>]]
        in ts[t + 3 := ts ! (t + 3) @ [\<lparr>hash = permD sig, docid = d\<rparr>]])"
  by (subst Add_loop.simps) (simp add: Let_def rot16_def permB_def permC_def permD_def add_3_Suc add_4_Suc)

lemma Add_loop_done: "\<not> i < 4 \<Longrightarrow> Add_loop i t sig d ts = ts"
  by (subst Add_loop.simps) simp

lemma Find_loop_step:
  "i < 4 \<Longrightarrow> Find_loop i t sig ts ids =
     Find_loop (i + 1) (t + 4) (rot16 sig) ts
       (ids @ table_find (ts ! t) sig @ table_find (ts ! (t + 1)) (permB sig)
          @ table_find (ts ! (t + 2)) (permC sig) @ table_find (ts ! (t + 3)) (permD sig))"
  by (subst Find_loop.simps) (simp add: Let_def rot16_def permB_def permC_def permD_def add_3_Suc add_4_Suc)

lemma Find_loop_done: "\<not> i < 4 \<Longrightarrow> Find_loop i t sig ts ids = ids"
  by (subst Find_loop.simps) simp

lemma Find_loop_probes:
  "Find_loop 0 0 q ts [] = concat (map (\<lambda>t. table_find (ts ! t) (table_perm t q)) [0..<16])"
  unfolding upt_16
  by (simp add: Find_loop_step Find_loop_done table_perm_def perm_variant_def rot_iter_numeral)

lemma Add_loop_nth:
  assumes "length ts = 16" "k < 16"
  shows "Add_loop 0 0 sig d ts ! k = ts ! k @ [\<lparr>hash = table_perm k sig, docid = d\<rparr>]"
proof -
  from \<open>k < 16\<close> have "k = 0 \<or> k = 1 \<or> k = Suc (Suc 0) \<or> k = 3 \<or> k = 4 \<or> k = 5 \<or> k = 6 \<or> k = 7 \<or> k = 8 \<or> k = 9 \<or> k = 10 \<or> k = 11 \<or> k = 12 \<or> k = 13 \<or> k = 14 \<or> k = 15"
    by arith
  then show ?thesis
    using assms(1)
    by (elim disjE) (simp_all add: Add_loop_step Add_loop_done Let_def table_perm_def perm_variant_def rot_iter_numeral numeral_2_eq_2 [symmetric])
qed

lemma Add_loop_length: "length (Add_loop 0 0 sig d ts) = length ts"
  by (simp add: Add_loop_step Add_loop_done Let_def)

lemma mask_consts:
  "(0x0000fff000000000 :: u64) = push_bit 36 (mask 12)"
  "(0x0000000fff000000 :: u64) = push_bit 24 (mask 12)"
  "(0x0000000000fff000 :: u64) = push_bit 12 (mask 12)"
  "(0x0000000000000fff :: u64) = mask 12"
  "(0xffff000000ffffff :: u64) = NOT (push_bit 24 (mask 24))"
  "(0xffff000fff000fff :: u64) = NOT (push_bit 36 (mask 12) OR push_bit 12 (mask 12))"
  "(0xffff000ffffff000 :: u64) = NOT (push_bit 36 (mask 12) OR mask 12)"
  by (simp_all add: mask_eq_exp_minus_1 push_bit_eq_mult)

lemma find_mask_eq: "find_mask = NOT (mask 36)"
  by (simp add: find_mask_def mask_eq_exp_minus_1)

lemma bit_rot16: "bit (rot16 w) n \<longleftrightarrow> n < 64 \<and> bit w (rot_idx n)"
  by (auto simp: rot16_def rot_idx_def bit_simps ac_simps dest: bit_imp_le_length)

lemma bit_permB: "bit (permB w) n \<longleftrightarrow> n < 64 \<and> bit w (swap_idx 24 n)"
  unfolding permB_def mask_consts
  by (auto simp: bit_simps swap_idx_def dest: bit_imp_le_length)

lemma bit_permC: "bit (permC w) n \<longleftrightarrow> n < 64 \<and> bit w (swap_idx 12 n)"
  unfolding permC_def mask_consts
  by (auto simp: bit_simps swap_idx_def dest: bit_imp_le_length)

lemma bit_permD: "bit (permD w) n \<longleftrightarrow> n < 64 \<and> bit w (swap_idx 0 n)"
  unfolding permD_def mask_consts
  by (auto simp: bit_simps swap_idx_def ac_simps dest: bit_imp_le_length)

lemma swap_idx_invol: "off \<le> 24 \<Longrightarrow> swap_idx off (swap_idx off n) = n"
  by (auto simp: swap_idx_def)

lemma swap_idx_less: "off \<le> 24 \<Longrightarrow> n < 64 \<Longrightarrow> swap_idx off n < 64"
  by (auto simp: swap_idx_def)

lemma swap_idx_bij: "off \<le> 24 \<Longrightarrow> bij_betw (swap_idx off) {0..<64} {0..<64}"
  by (rule bij_betw_byWitness [where f' = "swap_idx off"])
     (auto simp: swap_idx_invol swap_idx_less)

lemma rot_idx_bij: "bij_betw rot_idx {0..<64} {0..<64}"
  by (rule bij_betw_byWitness [where f' = "\<lambda>n. if 48 \<le> n then n - 48 else n + 16"])
     (auto simp: rot_idx_def)

lemma popcount_bij:
  assumes bij: "bij_betw \<sigma> {0..<64} {0..<64}"
    and bits: "\<And>n. bit w' n \<longleftrightarrow> n < 64 \<and> bit w (\<sigma> n)"
  shows "popcount w' = popcount w"
proof -
  have sub: "{n. bit w' n} \<subseteq> {0..<64}"
  proof
    fix n assume "n \<in> {n. bit w' n}"
    then have "bit w' n" by simp
    then have "n < 64" unfolding bits by (rule conjunct1)
    then show "n \<in> {0..<64}" by simp
  qed
  have img: "\<sigma> ` {0..<64} = {0..<64}" using bij by (rule bij_betw_imp_surj_on)
  have inj: "inj_on \<sigma> {0..<64}" using bij by (rule bij_betw_imp_inj_on)
  have "\<sigma> ` {n. bit w' n} = {m. bit w m}"
  proof (intro set_eqI iffI)
    fix m assume "m \<in> \<sigma> ` {n. bit w' n}"
    then obtain n where "bit w' n" "m = \<sigma> n" by blast
    then have "bit w m" unfolding bits by simp
    then show "m \<in> {m. bit w m}" by simp
  next
    fix m assume "m \<in> {m. bit w m}"
    then have m: "bit w m" by simp
    then have "m < 64" using bit_imp_le_length [of w m] by simp
    then have "m \<in> \<sigma> ` {0..<64}" unfolding img by simp
    then obtain n where n: "n \<in> {0..<64}" "m = \<sigma> n" by blast
    then have "n < 64" by simp
    with m n(2) have "bit w' n" unfolding bits by simp
    with \<open>m = \<sigma> n\<close> show "m \<in> \<sigma> ` {n. bit w' n}" by blast
  qed
  moreover have "inj_on \<sigma> {n. bit w' n}"
    using inj sub by (rule inj_on_subset)
  ultimately have "card {m. bit w m} = card {n. bit w' n}"
    using card_image [of \<sigma> "{n. bit w' n}"] by simp
  then show ?thesis by (simp only: popcount_card)
qed

lemma popcount_rot16: "popcount (rot16 w) = popcount w"
  using rot_idx_bij bit_rot16 by (rule popcount_bij)

lemma popcount_permB: "popcount (permB w) = popcount w"
  by (rule popcount_bij [OF swap_idx_bij [of 24] bit_permB]) simp

lemma popcount_permC: "popcount (permC w) = popcount w"
  by (rule popcount_bij [OF swap_idx_bij [of 12] bit_permC]) simp

lemma popcount_permD: "popcount (permD w) = popcount w"
  by (rule popcount_bij [OF swap_idx_bij [of 0] bit_permD]) simp

lemma rot16_xor: "rot16 (x XOR y) = rot16 x XOR rot16 y"
  by (rule bit_eqI) (auto simp: bit_rot16 bit_xor_iff)

lemma permB_xor: "permB (x XOR y) = permB x XOR permB y"
  by (rule bit_eqI) (auto simp: bit_permB bit_xor_iff)

lemma permC_xor: "permC (x XOR y) = permC x XOR permC y"
  by (rule bit_eqI) (auto simp: bit_permC bit_xor_iff)

lemma permD_xor: "permD (x XOR y) = permD x XOR permD y"
  by (rule bit_eqI) (auto simp: bit_permD bit_xor_iff)

lemma rot_iter_xor: "rot_iter i (x XOR y) = rot_iter i x XOR rot_iter i y"
  by (induction i) (simp_all add: rot16_xor)

lemma popcount_rot_iter: "popcount (rot_iter i w) = popcount w"
  by (induction i) (simp_all add: popcount_rot16)

lemma table_perm_xor: "table_perm t (x XOR y) = table_perm t x XOR table_perm t y"
  by (simp add: table_perm_def perm_variant_def rot_iter_xor permB_xor permC_xor permD_xor)

lemma popcount_table_perm: "popcount (table_perm t w) = popcount w"
  by (simp add: table_perm_def perm_variant_def popcount_rot_iter popcount_permB popcount_permC popcount_permD)

lemma permB_invol: "permB (permB w) = w"
  by (rule bit_eqI) (auto simp: bit_permB swap_idx_invol swap_idx_less dest: bit_imp_le_length)

lemma permC_invol: "permC (permC w) = w"
  by (rule bit_eqI) (auto simp: bit_permC swap_idx_invol swap_idx_less dest: bit_imp_le_length)

lemma permD_invol: "permD (permD w) = w"
  by (rule bit_eqI) (auto simp: bit_permD swap_idx_invol swap_idx_less dest: bit_imp_le_length)

lemma Add_hash_table_perm: "t < 16 \<Longrightarrow> Add_hash t x = table_perm t x"
  by (simp add: Add_hash_def Add_def empty_Store_def Add_loop_nth)

lemma rot_idx_mod: "n < 64 \<Longrightarrow> rot_idx n = (n + 48) mod 64"
  by (simp add: rot_idx_def le_mod_geq)

lemma bit_rot_iter: "bit (rot_iter i w) n \<longleftrightarrow> n < 64 \<and> bit w ((n + 48 * i) mod 64)"
proof (induction i arbitrary: n)
  case 0
  then show ?case using bit_imp_le_length [of w n] by auto
next
  case (Suc i)
  show ?case
  proof (cases "n < 64")
    case True
    have "((n + 48) mod 64 + 48 * i) mod 64 = (n + 48 * Suc i) mod 64"
      unfolding mod_add_left_eq by (simp add: algebra_simps)
    then show ?thesis
      using True by (simp add: bit_rot16 Suc.IH rot_idx_mod)
  next
    case False
    then show ?thesis by (simp add: bit_rot16)
  qed
qed

lemma less_4_cases: "i < 4 \<Longrightarrow> i = 0 \<or> i = 1 \<or> i = 2 \<or> i = (3::nat)"
  by arith

lemma mod64_96: "(n + 96) mod 64 = (n + 32) mod (64::nat)"
proof -
  have "n + 96 = (n + 32) + 64" by simp
  show ?thesis unfolding \<open>n + 96 = (n + 32) + 64\<close> by (rule mod_add_self2)
qed

lemma mod64_144: "(n + 144) mod 64 = (n + 16) mod (64::nat)"
proof -
  have e: "n + 144 = ((n + 16) + 64) + 64" by simp
  show ?thesis unfolding e by (simp only: mod_add_self2)
qed

lemma rot_index_mod: 
  assumes "i = 0 \<or> i = 1 \<or> i = 2 \<or> i = (3::nat)" 
  shows "(n + 48 * i) mod 64 = (n + (64 - 16 * i mod 64)) mod (64::nat)"
  using assms
proof (elim disjE)
  assume "i = 0" then show ?thesis by simp
next
  assume "i = 1" then show ?thesis by simp
next
  assume "i = 2" then show ?thesis by (simp add: mod64_96)
next
  assume "i = 3" then show ?thesis by (simp add: mod64_144)
qed

lemma rot_iter_ROTL64: "i < 4 \<Longrightarrow> rot_iter i x = ROTL64 x (16 * i)"
proof (rule bit_eqI)
  fix n :: nat
  assume "i < 4"
  then have r: "i = 0 \<or> i = 1 \<or> i = 2 \<or> i = 3" by (rule less_4_cases)
  show "bit (rot_iter i x) n = bit (ROTL64 x (16 * i)) n"
  proof (cases "n < 64")
    case True
    have b: "bit (rot_iter i x) n \<longleftrightarrow> bit x ((n + 48 * i) mod 64)"
      using True by (simp only: bit_rot_iter simp_thms)
    have c: "bit (ROTL64 x (16 * i)) n \<longleftrightarrow> bit x ((n + (64 - 16 * i mod 64)) mod 64)"
      using True by (simp add: ROTL64_def bit_word_rotl_iff)
    show ?thesis unfolding b c using rot_index_mod [OF r, of n] by simp
  next
    case False
    then show ?thesis by (simp add: bit_rot_iter ROTL64_def bit_word_rotl_iff)
  qed
qed

lemma bit_block_swap:
  "bit (block_swap 24 w) n \<longleftrightarrow> n < 64 \<and> bit w (swap_idx 24 n)"
  "bit (block_swap 12 w) n \<longleftrightarrow> n < 64 \<and> bit w (swap_idx 12 n)"
  "bit (block_swap 0 w) n \<longleftrightarrow> n < 64 \<and> bit w (swap_idx 0 n)"
  unfolding block_swap_def Let_def
  by (auto simp: bit_simps swap_idx_def ac_simps dest: bit_imp_le_length)

lemma perm_variant_variant: "perm_variant v x = variant v x"
  unfolding perm_variant_def variant_def
  by (auto intro!: bit_eqI simp: bit_permB bit_permC bit_permD bit_block_swap)

lemma table_perm_pi_spec: "t < 16 \<Longrightarrow> table_perm t x = pi_spec t x"
  by (simp add: table_perm_def pi_spec_def perm_variant_variant rot_iter_ROTL64)

lemma four_bits:
  assumes "bit w a" "bit w b" "bit w c" "bit w d" "distinct [a, b, c, d]"
  shows "4 \<le> popcount w"
proof -
  have "set [a, b, c, d] \<subseteq> {n. bit w n}" using assms(1-4) by simp
  then have "card (set [a, b, c, d]) \<le> card {n. bit w n}"
    by (rule card_mono [OF finite_bit_word])
  moreover have "card (set [a, b, c, d]) = length [a, b, c, d]"
    using assms(5) by (rule distinct_card)
  ultimately show ?thesis by (simp add: popcount_card)
qed

lemma top_idx:
  fixes n :: nat
  assumes "48 \<le> n" "n < 64"
  shows "(n + 48) mod 64 = n - 16" "(n + 96) mod 64 = n - 32" "(n + 144) mod 64 = n - 48"
proof -
  have a: "(n - 16) + 64 = n + 48" "(n - 32) + 64 = n + 32" "(n - 48) + 64 = n + 16"
    using assms by simp_all
  have l: "n - 16 < 64" "n - 32 < 64" "n - 48 < 64" using assms by simp_all
  have "((n - 16) + 64) mod 64 = n - 16" using l(1) by (simp only: mod_add_self2 mod_less)
  then show "(n + 48) mod 64 = n - 16" by (simp only: a)
  have "((n - 32) + 64) mod 64 = n - 32" using l(2) by (simp only: mod_add_self2 mod_less)
  then show "(n + 96) mod 64 = n - 32" by (simp only: a mod64_96)
  have "((n - 48) + 64) mod 64 = n - 48" using l(3) by (simp only: mod_add_self2 mod_less)
  then show "(n + 144) mod 64 = n - 48" by (simp only: a mod64_144)
qed

lemma bit_rot_iter_top:
  assumes "48 \<le> n" "bit (rot_iter i w) n"
  shows "i = 0 \<Longrightarrow> bit w n" "i = 1 \<Longrightarrow> bit w (n - 16)" "i = 2 \<Longrightarrow> bit w (n - 32)" "i = 3 \<Longrightarrow> bit w (n - 48)"
    and "n < 64"
proof -
  from assms(2) have n: "n < 64" and b: "bit w ((n + 48 * i) mod 64)"
    unfolding bit_rot_iter by simp_all
  show "n < 64" by (rule n)
  show "i = 0 \<Longrightarrow> bit w n" using b n by simp
  show "i = 1 \<Longrightarrow> bit w (n - 16)" using b top_idx(1) [OF assms(1) n] by simp
  show "i = 2 \<Longrightarrow> bit w (n - 32)" using b top_idx(2) [OF assms(1) n] by simp
  show "i = 3 \<Longrightarrow> bit w (n - 48)" using b top_idx(3) [OF assms(1) n] by simp
qed

lemma clear_rotation:
  assumes "popcount z \<le> 3"
  shows "\<exists>i<4. \<forall>n. 48 \<le> n \<longrightarrow> \<not> bit (rot_iter i z) n"
proof (rule ccontr)
  assume "\<not> (\<exists>i<4. \<forall>n. 48 \<le> n \<longrightarrow> \<not> bit (rot_iter i z) n)"
  then have ex: "\<And>i. i < 4 \<Longrightarrow> \<exists>n. 48 \<le> n \<and> bit (rot_iter i z) n" by blast
  from ex [of 0] obtain n0 where n0: "48 \<le> n0" "bit (rot_iter 0 z) n0" by auto
  from ex [of 1] obtain n1 where n1: "48 \<le> n1" "bit (rot_iter 1 z) n1" by auto
  from ex [of 2] obtain n2 where n2: "48 \<le> n2" "bit (rot_iter 2 z) n2" by auto
  from ex [of 3] obtain n3 where n3: "48 \<le> n3" "bit (rot_iter 3 z) n3" by auto
  have b0: "bit z n0" using bit_rot_iter_top(1) [OF n0] by simp
  have b1: "bit z (n1 - 16)" using bit_rot_iter_top(2) [OF n1] by simp
  have b2: "bit z (n2 - 32)" using bit_rot_iter_top(3) [OF n2] by simp
  have b3: "bit z (n3 - 48)" using bit_rot_iter_top(4) [OF n3] by simp
  have l: "n0 < 64" "n1 < 64" "n2 < 64" "n3 < 64"
    using bit_rot_iter_top(5) [OF n0] bit_rot_iter_top(5) [OF n1]
      bit_rot_iter_top(5) [OF n2] bit_rot_iter_top(5) [OF n3] by simp_all
  have "distinct [n0, n1 - 16, n2 - 32, n3 - 48]"
    using n0(1) n1(1) n2(1) n3(1) l by simp arith
  with b0 b1 b2 b3 have "4 \<le> popcount z" by (rule four_bits)
  with assms show False by simp
qed

lemma swap_idx_high:
  assumes "36 \<le> n" "off \<le> 24"
  shows "swap_idx off n = (if n < 48 then n - 36 + off else n)"
  using assms by (simp add: swap_idx_def)

lemma clear_variant:
  assumes top: "\<And>n. 48 \<le> n \<Longrightarrow> \<not> bit w n"
    and pc: "popcount w \<le> 3"
  shows "\<exists>v<4. \<forall>n. 36 \<le> n \<longrightarrow> \<not> bit (perm_variant v w) n"
proof (rule ccontr)
  assume "\<not> (\<exists>v<4. \<forall>n. 36 \<le> n \<longrightarrow> \<not> bit (perm_variant v w) n)"
  then have ex: "\<And>v. v < 4 \<Longrightarrow> \<exists>n. 36 \<le> n \<and> bit (perm_variant v w) n" by blast
  from ex [of 0] obtain n0 where n0: "36 \<le> n0" "bit w n0"
    by (auto simp: perm_variant_def)
  from ex [of 1] obtain n1 where n1: "36 \<le> n1" "bit (permB w) n1"
    by (auto simp: perm_variant_def)
  from ex [of 2] obtain n2 where n2: "36 \<le> n2" "bit (permC w) n2"
    by (auto simp: perm_variant_def)
  from ex [of 3] obtain n3 where n3: "36 \<le> n3" "bit (permD w) n3"
    by (auto simp: perm_variant_def)
  have a0: "n0 < 48" using top [of n0] n0(2) by (cases "n0 < 48") simp_all
  have "swap_idx 24 n1 = (if n1 < 48 then n1 - 36 + 24 else n1)"
    using n1(1) by (rule swap_idx_high) simp
  then have s1: "bit w (if n1 < 48 then n1 - 36 + 24 else n1)"
    using n1(2) unfolding bit_permB by simp
  then have a1: "n1 < 48" using top [of n1] by (cases "n1 < 48") simp_all
  have "swap_idx 12 n2 = (if n2 < 48 then n2 - 36 + 12 else n2)"
    using n2(1) by (rule swap_idx_high) simp
  then have s2: "bit w (if n2 < 48 then n2 - 36 + 12 else n2)"
    using n2(2) unfolding bit_permC by simp
  then have a2: "n2 < 48" using top [of n2] by (cases "n2 < 48") simp_all
  have "swap_idx 0 n3 = (if n3 < 48 then n3 - 36 + 0 else n3)"
    using n3(1) by (rule swap_idx_high) simp
  then have s3: "bit w (if n3 < 48 then n3 - 36 + 0 else n3)"
    using n3(2) unfolding bit_permD by simp
  then have a3: "n3 < 48" using top [of n3] by (cases "n3 < 48") simp_all
  have b1: "bit w (n1 - 12)" using s1 a1 n1(1) by simp
  have b2: "bit w (n2 - 24)" using s2 a2 n2(1) by simp
  have b3: "bit w (n3 - 36)" using s3 a3 n3(1) by simp
  have "distinct [n0, n1 - 12, n2 - 24, n3 - 36]"
    using n0(1) n1(1) n2(1) n3(1) a0 a1 a2 a3 by simp arith
  with n0(2) b1 b2 b3 have "4 \<le> popcount w" by (rule four_bits)
  with pc show False by simp
qed

lemma and_find_mask_zero:
  assumes "\<And>n. 36 \<le> n \<Longrightarrow> \<not> bit u n"
  shows "u AND find_mask = 0"
  unfolding find_mask_eq
proof (rule bit_eqI)
  fix n
  show "bit (u AND NOT (mask 36)) n = bit (0::u64) n"
    using assms [of n] by (cases "36 \<le> n") (auto simp: bit_simps)
qed

lemma and_eq_of_xor_zero:
  fixes a b m :: u64
  assumes "(a XOR b) AND m = 0"
  shows "a AND m = b AND m"
proof (rule bit_eqI)
  fix n
  have "\<not> bit ((a XOR b) AND m) n" unfolding assms by simp
  then show "bit (a AND m) n = bit (b AND m) n"
    by (auto simp: bit_and_iff bit_xor_iff)
qed

lemma coverage_table_perm:
  assumes "popcount (x XOR y) \<le> 3"
  shows "\<exists>t<16. table_perm t x AND find_mask = table_perm t y AND find_mask"
proof -
  from clear_rotation [OF assms] obtain i where i: "i < 4"
    and top: "\<And>n. 48 \<le> n \<Longrightarrow> \<not> bit (rot_iter i (x XOR y)) n" by blast
  have "popcount (rot_iter i (x XOR y)) \<le> 3"
    using assms by (simp add: popcount_rot_iter)
  from clear_variant [OF top this] obtain v where v: "v < 4"
    and clr: "\<And>n. 36 \<le> n \<Longrightarrow> \<not> bit (perm_variant v (rot_iter i (x XOR y))) n" by blast
  define t where "t = 4 * i + v"
  have t: "t < 16" "t div 4 = i" "t mod 4 = v" using i v by (simp_all add: t_def)
  have "table_perm t (x XOR y) AND find_mask = 0"
    unfolding table_perm_def t by (rule and_find_mask_zero) (rule clr)
  then have "table_perm t x AND find_mask = table_perm t y AND find_mask"
    unfolding table_perm_xor by (rule and_eq_of_xor_zero)
  with t(1) show ?thesis by blast
qed

section \<open>Binary search and prefix scan\<close>

text \<open>
  On a predicate that is monotone over the indices, \<open>Search\<close> returns the first index
  at which it holds. Masking with \<open>find_mask\<close> is monotone, so in a table sorted by
  hash the entries with a given prefix form one run, which starts at the first entry
  whose hash is at least the prefix.
\<close>

lemma Search_loop_spec:
  assumes mono: "\<And>a b. a \<le> b \<Longrightarrow> b < n \<Longrightarrow> f a \<Longrightarrow> f b"
  shows "i \<le> j \<Longrightarrow> j \<le> n \<Longrightarrow> (\<forall>k<i. \<not> f k) \<Longrightarrow> (\<forall>k. j \<le> k \<and> k < n \<longrightarrow> f k) \<Longrightarrow>
         Search_loop f i j \<le> n \<and> (\<forall>k<Search_loop f i j. \<not> f k) \<and>
         (\<forall>k. Search_loop f i j \<le> k \<and> k < n \<longrightarrow> f k)"
proof (induction "j - i" arbitrary: i j rule: less_induct)
  case less
  show ?case
  proof (cases "i < j")
    case False
    with less.prems have "i = j" by simp
    have e: "Search_loop f i j = i"
      by (subst Search_loop.simps) (simp add: False)
    show ?thesis unfolding e using less.prems \<open>i = j\<close> by simp
  next
    case True
    define h where "h = (i + j) div 2"
    have h: "i \<le> h" "h < j" using True by (simp_all add: h_def)
    show ?thesis
    proof (cases "f h")
      case fh: True
      have j': "\<forall>k. h \<le> k \<and> k < n \<longrightarrow> f k"
        using mono fh by blast
      have e: "Search_loop f i j = Search_loop f i h"
        by (subst Search_loop.simps) (simp add: True fh h_def [symmetric])
      have "h - i < j - i" using h by simp
      moreover have "h \<le> n" using h less.prems(2) by simp
      ultimately show ?thesis unfolding e
        using less.hyps [of h i] h(1) less.prems(3) j' by blast
    next
      case nfh: False
      have i': "\<forall>k<h + 1. \<not> f k"
      proof (intro allI impI)
        fix k assume "k < h + 1"
        then have "k \<le> h" by simp
        moreover have "h < n" using h less.prems by simp
        ultimately show "\<not> f k" using mono [of k h] nfh by blast
      qed
      have e: "Search_loop f i j = Search_loop f (h + 1) j"
        by (subst Search_loop.simps) (simp add: True nfh h_def [symmetric])
      have "j - (h + 1) < j - i" using h by simp
      moreover have "h + 1 \<le> j" using h by simp
      ultimately show ?thesis unfolding e
        using less.hyps [of j "h + 1"] less.prems(2,4) i' by blast
    qed
  qed
qed

lemma Search_first:
  assumes "sorted (map hash t)"
  shows "Search (length t) (\<lambda>i. hash (t ! i) \<ge> P) = length (takeWhile (\<lambda>e. hash e < P) t)"
proof -
  define r where "r = Search (length t) (\<lambda>i. hash (t ! i) \<ge> P)"
  have mono: "\<And>a b. a \<le> b \<Longrightarrow> b < length t \<Longrightarrow> P \<le> hash (t ! a) \<Longrightarrow> P \<le> hash (t ! b)"
  proof -
    fix a b assume ab: "a \<le> b" "b < length t" and pa: "P \<le> hash (t ! a)"
    have "b < length (map hash t)" using ab by simp
    with assms ab(1) have "map hash t ! a \<le> map hash t ! b"
      by (rule sorted_nth_mono)
    then have "hash (t ! a) \<le> hash (t ! b)" using ab by simp
    with pa show "P \<le> hash (t ! b)" by (rule order_trans)
  qed
  have v: "\<forall>k. length t \<le> k \<and> k < length t \<longrightarrow> P \<le> hash (t ! k)"
    by (meson leD)
  note S = Search_loop_spec [where f = "\<lambda>i. P \<le> hash (t ! i)" and n = "length t" and i = 0 and j = "length t"]
  have "Search_loop (\<lambda>i. P \<le> hash (t ! i)) 0 (length t) \<le> length t \<and>
     (\<forall>k<Search_loop (\<lambda>i. P \<le> hash (t ! i)) 0 (length t). \<not> P \<le> hash (t ! k)) \<and>
     (\<forall>k. Search_loop (\<lambda>i. P \<le> hash (t ! i)) 0 (length t) \<le> k \<and> k < length t \<longrightarrow> P \<le> hash (t ! k))"
    by (rule S) (fact mono, simp, simp, simp, fact v)
  then have spec0: "r \<le> length t \<and> (\<forall>k<r. \<not> P \<le> hash (t ! k)) \<and>
     (\<forall>k. r \<le> k \<and> k < length t \<longrightarrow> P \<le> hash (t ! k))"
    unfolding r_def Search_def .
  have spec: "r \<le> length t" "\<And>k. k < r \<Longrightarrow> hash (t ! k) < P" 
      "r < length t \<Longrightarrow> \<not> hash (t ! r) < P"
  proof -
    show "r \<le> length t" using spec0 by blast
    show "\<And>k. k < r \<Longrightarrow> hash (t ! k) < P" using spec0 by (meson not_le)
    show "r < length t \<Longrightarrow> \<not> hash (t ! r) < P" using spec0 by (meson not_le order_refl)
  qed
  have "takeWhile (\<lambda>e. hash e < P) t = take r t"
    by (rule takeWhile_eq_take_P_nth) (simp_all add: spec)
  then show ?thesis using spec(1) by (simp add: r_def [symmetric])
qed

lemma find_scan_eq:
  "find_scan t sig prefix i ids =
     ids @ map docid (filter (\<lambda>e. distance (hash e) sig \<le> 3)
            (takeWhile (\<lambda>e. hash e AND find_mask = prefix) (drop i t)))"
proof (induction t sig prefix i ids rule: find_scan.induct)
  case (1 t sig prefix i ids)
  show ?case
  proof (cases "i < length t \<and> hash (t ! i) AND find_mask = prefix")
    case True
    then have d: "drop i t = t ! i # drop (Suc i) t"
      by (simp add: Cons_nth_drop_Suc)
    note IH = "1.IH" [OF True, simplified]
    show ?thesis
      by (subst find_scan.simps) (simp add: True IH d)
  next
    case False
    show ?thesis
    proof (cases "i < length t")
      case True
      then have d: "drop i t = t ! i # drop (Suc i) t"
        by (simp add: Cons_nth_drop_Suc)
      show ?thesis using False True
        by (subst find_scan.simps) (simp add: d)
    next
      case nl: False
      then show ?thesis by (subst find_scan.simps) simp
    qed
  qed
qed

lemma find_mask_push: "h AND find_mask = push_bit 36 (drop_bit 36 h)"
  unfolding find_mask_eq
  by (rule bit_eqI) (auto simp: bit_simps)

lemma unat_prefix: "unat (h AND find_mask) = 2 ^ 36 * (unat h div 2 ^ 36)"
proof -
  have "2 ^ 36 * (unat h div 2 ^ 36) \<le> unat h" by simp
  also have "unat h < 2 ^ 64" using unsigned_less [of h] by simp
  finally have "take_bit 64 (2 ^ 36 * (unat h div 2 ^ 36)) = 2 ^ 36 * (unat h div 2 ^ 36)"
    by (simp only: take_bit_nat_eq_self)
  moreover have "unat (push_bit 36 (drop_bit 36 h)) = take_bit 64 (push_bit 36 (unat (drop_bit 36 h)))"
    by (simp add: unsigned_push_bit_eq)
  moreover have "unat (drop_bit 36 h) = unat h div 2 ^ 36"
    unfolding unat_drop_bit_eq by (rule drop_bit_eq_div)
  moreover have "push_bit 36 (unat h div 2 ^ 36) = 2 ^ 36 * (unat h div 2 ^ 36)"
    by (simp only: push_bit_eq_mult mult.commute)
  ultimately show ?thesis
    unfolding find_mask_push by (simp only:)
qed

lemma prefix_mono: "a \<le> b \<Longrightarrow> a AND find_mask \<le> b AND find_mask"
  unfolding word_le_nat_alt unat_prefix
  by (simp add: div_le_mono)

lemma prefix_le: "h AND find_mask \<le> h"
  by (rule word_and_le2)

lemma lt_prefix_iff:
  assumes "P AND find_mask = P"
  shows "h < P \<longleftrightarrow> h AND find_mask < P"
proof
  assume "h < P"
  with prefix_le [of h] show "h AND find_mask < P" by (rule le_less_trans)
next
  assume l: "h AND find_mask < P"
  show "h < P"
  proof (rule ccontr)
    assume "\<not> h < P"
    then have "P \<le> h" by simp
    then have "P AND find_mask \<le> h AND find_mask" by (rule prefix_mono)
    with assms l show False by simp
  qed
qed

lemma filter_eq_takeWhile_sorted:
  fixes k :: "'a \<Rightarrow> 'b::linorder"
  shows "sorted (map k xs) \<Longrightarrow> \<forall>x\<in>set xs. P \<le> k x \<Longrightarrow>
    filter (\<lambda>x. k x = P) xs = takeWhile (\<lambda>x. k x = P) xs"
proof (induction xs)
  case Nil
  then show ?case by simp
next
  case (Cons x xs)
  show ?case
  proof (cases "k x = P")
    case True
    with Cons show ?thesis by simp
  next
    case False
    with Cons.prems have "P < k x" by auto
    with Cons.prems have "\<forall>y\<in>set xs. k y \<noteq> P" by auto
    then have "filter (\<lambda>x. k x = P) xs = []" by (simp add: filter_empty_conv)
    with False show ?thesis by simp
  qed
qed

lemma segment_eq_filter:
  fixes k :: "'a \<Rightarrow> 'b::linorder"
  shows "sorted (map k xs) \<Longrightarrow>
    takeWhile (\<lambda>x. k x = P) (dropWhile (\<lambda>x. k x < P) xs) = filter (\<lambda>x. k x = P) xs"
proof (induction xs)
  case Nil
  then show ?case by simp
next
  case (Cons x xs)
  show ?case
  proof (cases "k x < P")
    case True
    with Cons show ?thesis by simp
  next
    case False
    have "\<forall>y\<in>set (x # xs). P \<le> k y" using Cons.prems False by auto
    with Cons.prems have "filter (\<lambda>x. k x = P) (x # xs) = takeWhile (\<lambda>x. k x = P) (x # xs)"
      by (rule filter_eq_takeWhile_sorted)
    with False show ?thesis by simp
  qed
qed

lemma sorted_prefix:
  assumes "sorted (map hash t)"
  shows "sorted (map (\<lambda>e. hash e AND find_mask) t)"
  using assms unfolding sorted_map
  by (rule sorted_wrt_mono_rel [rotated]) (simp add: prefix_mono)

lemma table_find_segment:
  assumes "sorted (map hash t)"
  shows "takeWhile (\<lambda>e. hash e AND find_mask = q AND find_mask)
           (drop (Search (length t) (\<lambda>i. hash (t ! i) \<ge> q AND find_mask)) t)
         = filter (\<lambda>e. hash e AND find_mask = q AND find_mask) t"
proof -
  define P where "P = q AND find_mask"
  have P: "P AND find_mask = P" by (simp add: P_def and.assoc)
  have "drop (Search (length t) (\<lambda>i. hash (t ! i) \<ge> P)) t = dropWhile (\<lambda>e. hash e < P) t"
    unfolding Search_first [OF assms] by (rule dropWhile_eq_drop [symmetric])
  also have "\<dots> = dropWhile (\<lambda>e. hash e AND find_mask < P) t"
    by (rule arg_cong [where f = "\<lambda>Q. dropWhile Q t"]) (simp add: lt_prefix_iff [OF P, symmetric])
  finally show ?thesis
    unfolding P_def [symmetric]
    using segment_eq_filter [OF sorted_prefix [OF assms], of P] by simp
qed

lemma table_find_sorted:
  assumes "sorted (map hash t)"
  shows "table_find t q = map docid (filter (\<lambda>e. distance (hash e) q \<le> 3)
            (filter (\<lambda>e. hash e AND find_mask = q AND find_mask) t))"
  unfolding table_find_def Let_def find_scan_eq table_find_segment [OF assms] by simp

lemma table_find_subset:
  "set (table_find t q) \<subseteq> docid ` {e \<in> set t. distance (hash e) q \<le> 3}"
  unfolding table_find_def Let_def find_scan_eq
  by (auto dest: set_takeWhileD in_set_dropD)

section \<open>The store: tables after \<open>Add\<close>, \<open>Finish\<close> and \<open>Find\<close>\<close>

text \<open>
  Table \<open>t\<close> of a store built by \<open>Add\<close> calls holds the entries \<open>entry_of t\<close> of the
  added pairs; \<open>Finish\<close> permutes each table into sorted order; \<open>Find\<close> collects the
  results of \<open>table_find\<close> over the 16 tables and removes duplicates.
\<close>

lemma length_tables_Add: "length (tables (Add sig d s)) = length (tables s)"
  by (simp add: Add_def Add_loop_length)

lemma tables_Add:
  assumes "length (tables s) = 16" "t < 16"
  shows "tables (Add sig d s) ! t = tables s ! t @ [entry_of t (sig, d)]"
  using assms by (simp add: Add_def Add_loop_nth entry_of_def)

lemma length_tables_Add_all: "length (tables (Add_all xs s)) = length (tables s)"
  unfolding Add_all_def
  by (induction xs arbitrary: s) (simp_all add: length_tables_Add split: prod.splits)

lemma tables_Add_all:
  assumes "t < 16"
  shows "length (tables s) = 16 \<Longrightarrow> tables (Add_all xs s) ! t = tables s ! t @ map (entry_of t) xs"
  unfolding Add_all_def
proof (induction xs arbitrary: s)
  case Nil
  then show ?case by simp
next
  case (Cons p xs)
  obtain sig d where p: "p = (sig, d)" by (cases p)
  have "length (tables (Add sig d s)) = 16" using Cons.prems by (simp add: length_tables_Add)
  from Cons.IH [OF this] show ?case
    using tables_Add [OF Cons.prems assms, of sig d] by (simp add: p)
qed

lemma tables_built:
  assumes "t < 16"
  shows "tables (Add_all xs empty_Store) ! t = map (entry_of t) xs"
  using tables_Add_all [OF assms, of empty_Store xs] assms by (simp add: empty_Store_def)

lemma length_tables_built: "length (tables (Add_all xs empty_Store)) = 16"
  by (simp add: length_tables_Add_all) (simp add: empty_Store_def)

lemma Finish_returnsD:
  assumes "Finish_returns s s'" "t < length (tables s)"
  shows "mset (tables s' ! t) = mset (tables s ! t)" "sorted (map hash (tables s' ! t))"
    "length (tables s') = length (tables s)"
  using assms unfolding Finish_returns_def list_all_iff by simp_all

lemma Finish_returns_Finish: "Finish_returns s (Finish s)"
  unfolding Finish_returns_def list_all_iff Finish_def by simp

lemma set_fold_uniq_insert: "set (fold uniq_insert ids ks) = set ks \<union> set ids"
  by (induction ids arbitrary: ks) (auto simp: uniq_insert_def)

lemma distinct_fold_uniq_insert: "distinct ks \<Longrightarrow> distinct (fold uniq_insert ids ks)"
  by (induction ids arbitrary: ks) (auto simp: uniq_insert_def)

lemma set_Find: "set (Find s q) = (\<Union>t<16. set (table_find (tables s ! t) (table_perm t q)))"
proof -
  have "set (Find s q) = (\<Union>t\<in>set [0..<16]. set (table_find (tables s ! t) (table_perm t q)))"
    unfolding Find_def Let_def set_fold_uniq_insert Find_loop_probes by simp
  also have "set [0..<16] = {..<16::nat}" by (simp only: set_upt atLeast0LessThan)
  finally show ?thesis .
qed

lemma distinct_Find: "distinct (Find s q)"
  unfolding Find_def Let_def by (rule distinct_fold_uniq_insert) simp

lemma Find_returnsD:
  assumes "Find_returns s q ids"
  shows "set ids = set (Find s q)" "distinct ids"
proof -
  from assms have m: "mset ids = mset (Find s q)" by (simp add: Find_returns_def)
  then show "set ids = set (Find s q)" by (rule mset_eq_setD)
  from m distinct_Find [of s q] show "distinct ids" by (metis mset_eq_imp_distinct_iff)
qed

lemma distance_table_perm:
  "distance (table_perm t a) (table_perm t b) = int (popcount (a XOR b))"
  by (simp add: distance_popcount table_perm_xor [symmetric] popcount_table_perm)

lemma recall_built:
  assumes fin: "Finish_returns (Add_all xs empty_Store) s'"
    and mem: "(sig, d) \<in> set xs"
    and near: "popcount (sig XOR q) \<le> 3"
  shows "d \<in> set (Find s' q)"
proof -
  from coverage_table_perm [OF near] obtain t where t: "t < 16"
    and pre: "table_perm t sig AND find_mask = table_perm t q AND find_mask" by blast
  have t': "t < length (tables (Add_all xs empty_Store))" using t by (simp add: length_tables_built)
  define e where "e = entry_of t (sig, d)"
  have "e \<in> set (tables (Add_all xs empty_Store) ! t)"
    using mem by (auto simp: tables_built [OF t] e_def)
  then have "e \<in># mset (tables s' ! t)"
    unfolding Finish_returnsD(1) [OF fin t'] by simp
  then have e: "e \<in> set (tables s' ! t)" by simp
  have "distance (hash e) (table_perm t q) \<le> 3"
    using near by (simp add: e_def entry_of_def distance_table_perm)
  moreover have "hash e AND find_mask = table_perm t q AND find_mask"
    using pre by (simp add: e_def entry_of_def)
  ultimately have "docid e \<in> set (table_find (tables s' ! t) (table_perm t q))"
    unfolding table_find_sorted [OF Finish_returnsD(2) [OF fin t']] using e by simp
  then show ?thesis unfolding set_Find using t by (auto simp: e_def entry_of_def)
qed

lemma sound_tables:
  assumes tabs: "\<And>t. t < 16 \<Longrightarrow> set (tables s ! t) \<subseteq> entry_of t ` set xs"
    and ret: "d \<in> set (Find s q)"
  shows "\<exists>sig. (sig, d) \<in> set xs \<and> popcount (sig XOR q) \<le> 3"
proof -
  from ret obtain t where t: "t < 16" and d: "d \<in> set (table_find (tables s ! t) (table_perm t q))"
    unfolding set_Find by blast
  from d table_find_subset [of "tables s ! t" "table_perm t q"]
  obtain e where e: "e \<in> set (tables s ! t)" "distance (hash e) (table_perm t q) \<le> 3" "d = docid e"
    by blast
  from e(1) tabs [OF t] obtain p where p: "p \<in> set xs" "e = entry_of t p" by blast
  obtain sig d' where sd: "p = (sig, d')" by (cases p)
  have "d' = d" using e(3) p(2) sd by (simp add: entry_of_def)
  moreover have "popcount (sig XOR q) \<le> 3"
    using e(2) p(2) sd by (simp add: entry_of_def distance_table_perm)
  ultimately show ?thesis using p(1) sd by blast
qed

lemma store_invD:
  assumes "store_inv xs s"
  shows "length (tables s) = 16" "t < 16 \<Longrightarrow> mset (tables s ! t) = mset (map (entry_of t) xs)"
  using assms unfolding store_inv_def list_all_iff by simp_all

lemma store_invI:
  assumes "length (tables s) = 16" "\<And>t. t < 16 \<Longrightarrow> mset (tables s ! t) = mset (map (entry_of t) xs)"
  shows "store_inv xs s"
  using assms unfolding store_inv_def list_all_iff by simp

lemma store_inv_empty: "store_inv [] empty_Store"
  by (rule store_invI) (simp_all add: empty_Store_def)

lemma store_inv_Add:
  assumes "store_inv xs s"
  shows "store_inv (xs @ [(sig, d)]) (Add sig d s)"
proof (rule store_invI)
  show "length (tables (Add sig d s)) = 16"
    using store_invD(1) [OF assms] by (simp add: length_tables_Add)
  show "mset (tables (Add sig d s) ! t) = mset (map (entry_of t) (xs @ [(sig, d)]))" if "t < 16" for t
    using tables_Add [OF store_invD(1) [OF assms] that, of sig d] store_invD(2) [OF assms that]
    by simp
qed

lemma store_inv_Finish:
  assumes "store_inv xs s" "Finish_returns s s'"
  shows "store_inv xs s'"
proof (rule store_invI)
  show "length (tables s') = 16"
    using Finish_returnsD(3) [OF assms(2), of 0] store_invD(1) [OF assms(1)] by simp
  show "mset (tables s' ! t) = mset (map (entry_of t) xs)" if "t < 16" for t
    using Finish_returnsD(1) [OF assms(2), of t] store_invD [OF assms(1)] that by simp
qed

lemma run_store_inv:
  "store_inv xs s \<Longrightarrow> \<exists>s'. run ops s = Inr s' \<and> store_inv (xs @ adds_of ops) s'"
proof (induction ops arbitrary: xs s)
  case Nil
  then show ?case by simp
next
  case (Cons c ops)
  show ?case
  proof (cases c)
    case (OpAdd sig d)
    from Cons.IH [OF store_inv_Add [OF Cons.prems, of sig d]] show ?thesis
      by (simp add: OpAdd)
  next
    case OpFinish
    from Cons.IH [OF store_inv_Finish [OF Cons.prems Finish_returns_Finish]] show ?thesis
      by (simp add: OpFinish)
  next
    case (OpFind q)
    from Cons.IH [OF Cons.prems] show ?thesis
      by (simp add: OpFind)
  qed
qed

lemma store_inv_length:
  assumes "store_inv xs s" "t < 16"
  shows "length (tables s ! t) = length xs"
proof -
  have "size (mset (tables s ! t)) = size (mset (map (entry_of t) xs))"
    using store_invD(2) [OF assms] by simp
  then show ?thesis by simp
qed

lemma store_inv_sound:
  assumes "store_inv xs s" "d \<in> set (Find s q)"
  shows "\<exists>sig. (sig, d) \<in> set xs \<and> popcount (sig XOR q) \<le> 3"
proof (rule sound_tables [OF _ assms(2)])
  fix t :: nat assume "t < 16"
  from store_invD(2) [OF assms(1) this] have "set (tables s ! t) = set (map (entry_of t) xs)"
    by (rule mset_eq_setD)
  then show "set (tables s ! t) \<subseteq> entry_of t ` set xs" by simp
qed

lemma store_inv_built: "store_inv xs (Add_all xs empty_Store)"
  by (rule store_invI) (simp_all add: length_tables_built tables_built)

lemma variant_invol: "variant v (variant v x) = x"
  unfolding perm_variant_variant [symmetric]
  by (simp add: perm_variant_def permB_invol permC_invol permD_invol)

lemma pi_spec_inv_left: "pi_spec_inv t (pi_spec t x) = x"
  by (simp add: pi_spec_inv_def pi_spec_def ROTL64_def variant_invol)

lemma pi_spec_inv_right: "pi_spec t (pi_spec_inv t y) = y"
  by (simp add: pi_spec_inv_def pi_spec_def ROTL64_def variant_invol)

lemma Add_hash_pi_spec: "t < 16 \<Longrightarrow> Add_hash t = pi_spec t"
  by (rule ext) (simp add: Add_hash_table_perm table_perm_pi_spec)

lemma bij_pi_spec: "bij (pi_spec t)"
  by (rule bij_betw_byWitness [where f' = "pi_spec_inv t"])
     (simp_all add: pi_spec_inv_left pi_spec_inv_right)

section \<open>The claims\<close>

text \<open>
  Claim C1 (recall within radius). Take any finite sequence \<open>xs\<close> of \<open>Add(sig, docid)\<close>
  calls on the empty store, followed by \<open>Finish\<close> (in any of the orders \<open>sort.Sort\<close> may
  leave equal hashes in). For every stored pair \<open>(sig, d)\<close> and every query \<open>q\<close> whose
  Hamming distance to \<open>sig\<close> is at most 3, \<open>d\<close> is among the ids that \<open>Find(q)\<close> returns
  (in whatever order the map iteration lists them).
\<close>

theorem recall_within_radius:
  assumes "Finish_returns (Add_all xs empty_Store) s'"
    and "Find_returns s' q ids"
    and "(sig, d) \<in> set xs"
    and "popcount (sig XOR q) \<le> 3"
  shows "d \<in> set ids"
  unfolding Find_returnsD(1) [OF assms(2)]
  using assms(1,3,4) by (rule recall_built)

theorem recall_within_radius_witness:
  "Finish_returns (Add_all [(0xFF, 7)] empty_Store) (Finish (Add_all [(0xFF, 7)] empty_Store)) \<and>
   Find_returns (Finish (Add_all [(0xFF, 7)] empty_Store)) 0xFB
     (Find (Finish (Add_all [(0xFF, 7)] empty_Store)) 0xFB) \<and>
   popcount (0xFF XOR 0xFB) \<le> 3 \<and>
   7 \<in> set (Find (Finish (Add_all [(0xFF, 7)] empty_Store)) 0xFB)"
proof -
  have f: "Finish_returns (Add_all [(0xFF, 7)] empty_Store) (Finish (Add_all [(0xFF, 7)] empty_Store))"
    by (rule Finish_returns_Finish)
  have r: "Find_returns (Finish (Add_all [(0xFF, 7)] empty_Store)) 0xFB
     (Find (Finish (Add_all [(0xFF, 7)] empty_Store)) 0xFB)"
    by (simp add: Find_returns_def)
  have p: "popcount (0xFF XOR 0xFB) \<le> 3"
    by (simp add: popcount_unat)
  have m: "(0xFF, 7) \<in> set [(0xFF :: u64, 7 :: u64)]" by simp
  from recall_within_radius [OF f r m p] f r p show ?thesis by simp
qed

text \<open>
  Claim C2 (permutation coverage). For every pair of 64-bit words \<open>x\<close> and \<open>y\<close> that
  differ in at most 3 bit positions there is a table index \<open>t < 16\<close> such that the hashes
  computed for table \<open>t\<close> from \<open>x\<close> and from \<open>y\<close> agree on the prefix mask
  \<open>0xFFFFFFF000000000\<close> of \<open>table.find\<close>.
\<close>

theorem permutation_coverage:
  assumes "popcount (x XOR y) \<le> 3"
  shows "\<exists>t<16. Add_hash t x AND find_mask = Add_hash t y AND find_mask"
proof -
  from coverage_table_perm [OF assms] obtain t where "t < 16"
    "table_perm t x AND find_mask = table_perm t y AND find_mask" by blast
  then show ?thesis by (auto simp: Add_hash_table_perm)
qed

theorem permutation_coverage_witness:
  "popcount (0 XOR 7) \<le> 3 \<and> (\<exists>t<16. Add_hash t 0 AND find_mask = Add_hash t 7 AND find_mask)"
proof -
  have p: "popcount (0 XOR 7) \<le> 3" by (simp add: popcount_unat)
  from permutation_coverage [OF p] p show ?thesis by simp
qed

text \<open>
  Claim C3 (no false acceptance). After any sequence \<open>xs\<close> of \<open>Add\<close> calls and \<open>Finish\<close>,
  every docid \<open>d\<close> returned by \<open>Find(q)\<close> was inserted with at least one fingerprint
  \<open>sig\<close> whose Hamming distance to \<open>q\<close> is at most 3.
\<close>

theorem no_false_acceptance:
  assumes "Finish_returns (Add_all xs empty_Store) s'"
    and "Find_returns s' q ids"
    and "d \<in> set ids"
  shows "\<exists>sig. (sig, d) \<in> set xs \<and> popcount (sig XOR q) \<le> 3"
proof -
  have "store_inv xs s'" using store_inv_built assms(1) by (rule store_inv_Finish)
  moreover have "d \<in> set (Find s' q)" using assms(3) unfolding Find_returnsD(1) [OF assms(2)] .
  ultimately show ?thesis by (rule store_inv_sound)
qed

lemma Find_within_radius_example: "Find (Finish (Add_all [(0xFF, 7)] empty_Store)) 0xFB = [7]"
  by code_simp

theorem no_false_acceptance_witness:
  "Finish_returns (Add_all [(0xFF, 7)] empty_Store) (Finish (Add_all [(0xFF, 7)] empty_Store)) \<and>
   Find_returns (Finish (Add_all [(0xFF, 7)] empty_Store)) 0xFB [7] \<and>
   (\<exists>sig. (sig, 7) \<in> set [(0xFF, 7)] \<and> popcount (sig XOR 0xFB) \<le> 3)"
proof -
  have f: "Finish_returns (Add_all [(0xFF, 7)] empty_Store) (Finish (Add_all [(0xFF, 7)] empty_Store))"
    by (rule Finish_returns_Finish)
  have r: "Find_returns (Finish (Add_all [(0xFF, 7)] empty_Store)) 0xFB [7]"
    by (simp add: Find_returns_def Find_within_radius_example)
  have m: "(7 :: u64) \<in> set [7]" by simp
  from no_false_acceptance [OF f r m] f r show ?thesis by simp
qed

text \<open>
  Claim C4 (deduplication). Whatever the store holds, and so in particular for a store
  built by \<open>Add\<close> calls followed by \<open>Finish\<close>, the collection returned by \<open>Find(q)\<close>
  contains each docid at most once.
\<close>

theorem find_deduplicated:
  assumes "Find_returns s q ids"
  shows "distinct ids"
  using assms by (rule Find_returnsD(2))

lemma Find_duplicate_docid_example:
  "Find (Finish (Add_all [(0x0F0F0F0F0F0F0F0F, 9), (0x0F0F0F0F0F0F0F0E, 9)] empty_Store))
     0x0F0F0F0F0F0F0F0F = [9]"
  by code_simp

theorem find_deduplicated_witness:
  "Find_returns (Finish (Add_all [(0x0F0F0F0F0F0F0F0F, 9), (0x0F0F0F0F0F0F0F0E, 9)] empty_Store))
     0x0F0F0F0F0F0F0F0F [9] \<and> distinct [9 :: u64]"
proof -
  have r: "Find_returns (Finish (Add_all [(0x0F0F0F0F0F0F0F0F, 9), (0x0F0F0F0F0F0F0F0E, 9)] empty_Store))
     0x0F0F0F0F0F0F0F0F [9]"
    by (simp add: Find_returns_def Find_duplicate_docid_example)
  from find_deduplicated [OF r] r show ?thesis by simp
qed

text \<open>
  Claim C5 (per-table find). Let the table \<open>t\<close> be sorted ascending by hash, \<open>q\<close> the
  permuted query and \<open>P = q AND 0xFFFFFFF000000000\<close>. The binary search returns the
  index \<open>i0\<close> of the first entry with \<open>hash \<ge> P\<close> (the number of leading entries with
  \<open>hash < P\<close>); the entries scanned from \<open>i0\<close> while \<open>hash AND mask = P\<close> are exactly
  the entries of the table with that prefix; and \<open>table.find\<close> returns, in scan order,
  the docids of those scanned entries whose distance to \<open>q\<close> is at most 3.
\<close>

theorem table_find_algorithm:
  assumes "sorted (map hash t)"
  shows "let P = q AND find_mask;
             i0 = Search (length t) (\<lambda>i. hash (t ! i) \<ge> P);
             seg = takeWhile (\<lambda>e. hash e AND find_mask = P) (drop i0 t)
         in i0 = length (takeWhile (\<lambda>e. hash e < P) t)
            \<and> seg = filter (\<lambda>e. hash e AND find_mask = P) t
            \<and> table_find t q = map docid (filter (\<lambda>e. distance (hash e) q \<le> 3) seg)"
  unfolding Let_def
  using Search_first [OF assms, of "q AND find_mask"] table_find_segment [OF assms, of q]
  by (simp add: table_find_def find_scan_eq)

theorem table_find_algorithm_witness:
  "sorted (map hash [\<lparr>hash = 1, docid = 10\<rparr>, \<lparr>hash = 0xF, docid = 11\<rparr>, \<lparr>hash = 0x1000000003, docid = 12\<rparr>])
   \<and> table_find [\<lparr>hash = 1, docid = 10\<rparr>, \<lparr>hash = 0xF, docid = 11\<rparr>, \<lparr>hash = 0x1000000003, docid = 12\<rparr>] 0 = [10]"
proof -
  have s: "sorted (map hash [\<lparr>hash = 1, docid = 10\<rparr>, \<lparr>hash = 0xF, docid = 11\<rparr>, \<lparr>hash = 0x1000000003, docid = 12\<rparr>])"
    by simp
  from table_find_algorithm [OF s, of 0] s show ?thesis
    by (simp add: Let_def find_mask_def distance_popcount popcount_unat)
qed

text \<open>
  Claim C7 (phase safety) as stated: \<open>Add\<close> after \<open>Finish\<close> and \<open>Find\<close> before \<open>Finish\<close>
  each fail with a PhaseViolation. The store has no phase marker, and both calls return
  normally: \<open>Add(0, 1)\<close> after \<open>Finish\<close> on the empty store yields the store whose 16
  tables each hold the new entry, and \<open>Find(0xFB)\<close> right after \<open>Add(0xFF, 7)\<close>, with no
  \<open>Finish\<close> in between, returns \<open>[7]\<close>.
\<close>

theorem phase_violation_counterexample:
  "run [OpFinish, OpAdd 0 1] empty_Store = Inr \<lparr>tables = replicate 16 [\<lparr>hash = 0, docid = 1\<rparr>]\<rparr>
   \<and> run [OpFinish, OpAdd 0 1] empty_Store \<noteq> Inl PhaseViolation
   \<and> call (OpFind 0xFB) (Add 0xFF 7 empty_Store) = Inr (Add 0xFF 7 empty_Store, [7])
   \<and> call (OpFind 0xFB) (Add 0xFF 7 empty_Store) \<noteq> Inl PhaseViolation"
proof -
  have "Add 0 1 (Finish empty_Store) = \<lparr>tables = replicate 16 [\<lparr>hash = 0, docid = 1\<rparr>]\<rparr>"
    by code_simp
  moreover have "Find (Add 0xFF 7 empty_Store) 0xFB = [7]"
    by code_simp
  ultimately show ?thesis by simp
qed

text \<open>
  Claim C7, amended. No call fails: every sequence of \<open>Add\<close>, \<open>Finish\<close> and \<open>Find\<close> calls,
  in any order, returns normally. In the store it leaves behind every table holds one
  entry per \<open>Add\<close> call, and \<open>Find\<close>, finished or not, returns each docid at most once
  and only docids that were added with a fingerprint within distance 3 of the query.
\<close>

theorem calls_return_normally:
  "\<exists>s'. run ops empty_Store = Inr s'
     \<and> (\<forall>t<16. length (tables s' ! t) = length (adds_of ops))
     \<and> (\<forall>q. distinct (Find s' q)
            \<and> (\<forall>d\<in>set (Find s' q). \<exists>sig. (sig, d) \<in> set (adds_of ops) \<and> popcount (sig XOR q) \<le> 3))"
proof -
  from run_store_inv [OF store_inv_empty, of ops] obtain s'
    where r: "run ops empty_Store = Inr s'" and i: "store_inv (adds_of ops) s'" by auto
  show ?thesis
    using r store_inv_length [OF i] store_inv_sound [OF i] distinct_Find by blast
qed

theorem calls_return_normally_witness:
  "run [OpFinish, OpAdd 0xFF 7, OpFind 0xFB] empty_Store = Inr (Add 0xFF 7 (Finish empty_Store))
   \<and> length (tables (Add 0xFF 7 (Finish empty_Store)) ! 3) = 1
   \<and> distinct (Find (Add 0xFF 7 (Finish empty_Store)) 0xFB)"
proof -
  have r: "run [OpFinish, OpAdd 0xFF 7, OpFind 0xFB] empty_Store = Inr (Add 0xFF 7 (Finish empty_Store))"
    by simp
  from calls_return_normally [of "[OpFinish, OpAdd 0xFF 7, OpFind 0xFB]"] r
  show ?thesis by simp
qed

text \<open>
  Claim C8 (permutation binding and closed form). For \<open>t = 4 * i + v\<close> with \<open>i, v < 4\<close>
  the entry that \<open>Add\<close> appends to table \<open>t\<close> carries the hash
  \<open>variant v (ROTL64 x (16 * i))\<close>: the rotation that the loop builds up step by step is
  the closed-form rotation of the specification. \<open>Find\<close> probes table \<open>t\<close> with the query
  permuted in exactly the same way, for every \<open>t\<close>.
\<close>

theorem permutation_binding:
  assumes "length (tables s) = 16" "i < 4" "v < 4"
  shows "tables (Add x d s) ! (4 * i + v)
           = tables s ! (4 * i + v) @ [\<lparr>hash = variant v (ROTL64 x (16 * i)), docid = d\<rparr>]
         \<and> Find_loop 0 0 x (tables s) []
           = concat (map (\<lambda>t. table_find (tables s ! t) (variant (t mod 4) (ROTL64 x (16 * (t div 4)))))
               [0..<16])"
proof -
  have t: "4 * i + v < 16" "(4 * i + v) div 4 = i" "(4 * i + v) mod 4 = v"
    using assms(2,3) by simp_all
  have a: "tables (Add x d s) ! (4 * i + v) = tables s ! (4 * i + v) @ [entry_of (4 * i + v) (x, d)]"
    using assms(1) t(1) by (rule tables_Add)
  have b: "entry_of (4 * i + v) (x, d) = \<lparr>hash = variant v (ROTL64 x (16 * i)), docid = d\<rparr>"
    using table_perm_pi_spec [OF t(1), of x] unfolding entry_of_def pi_spec_def t by simp
  have c: "map (\<lambda>t. table_find (tables s ! t) (table_perm t x)) [0..<16]
      = map (\<lambda>t. table_find (tables s ! t) (variant (t mod 4) (ROTL64 x (16 * (t div 4))))) [0..<16]"
    by (rule map_cong) (simp_all add: table_perm_pi_spec pi_spec_def)
  show ?thesis
    unfolding Find_loop_probes a b c by (rule conjI; rule refl)
qed

theorem permutation_binding_witness:
  "tables (Add 0x0123456789ABCDEF 5 empty_Store) ! 6
     = [\<lparr>hash = variant 2 (ROTL64 0x0123456789ABCDEF 16), docid = 5\<rparr>]
   \<and> variant 2 (ROTL64 0x0123456789ABCDEF 16) = 0x4567EF0BCD89A123"
proof -
  have l: "length (tables empty_Store) = 16" by (simp add: empty_Store_def)
  have v: "variant 2 (ROTL64 0x0123456789ABCDEF 16) = 0x4567EF0BCD89A123"
    by code_simp
  from permutation_binding [OF l, of 1 2 "0x0123456789ABCDEF" 5] v show ?thesis
    by (simp add: empty_Store_def)
qed

text \<open>
  Claim C9 (permutation bijectivity). For every table index \<open>t < 16\<close> the permutation
  that \<open>Add\<close> applies for table \<open>t\<close> is a bijection on 64-bit words, and \<open>pi_spec_inv t\<close>
  inverts it: \<open>pi_spec_inv t (Add_hash t x) = x\<close> for all \<open>x\<close>.
\<close>

theorem permutation_bijective:
  assumes "t < 16"
  shows "bij (Add_hash t) \<and> (\<forall>x. pi_spec_inv t (Add_hash t x) = x)"
  unfolding Add_hash_pi_spec [OF assms]
  using bij_pi_spec pi_spec_inv_left by blast

theorem permutation_bijective_witness:
  "bij (Add_hash 5) \<and> pi_spec_inv 5 (Add_hash 5 0x0123456789ABCDEF) = 0x0123456789ABCDEF"
proof -
  have "(5 :: nat) < 16" by simp
  from permutation_bijective [OF this] show ?thesis by blast
qed

text \<open>
  Claim C10 (equal lengths). A call \<open>Add(sig, d)\<close> appends exactly one entry to each of
  the 16 tables, carrying \<open>d\<close> and the hash permuted for that table. Hence after \<open>n\<close>
  \<open>Add\<close> calls on the empty store every table has length \<open>n\<close>; the same holds after
  any sequence of \<open>Add\<close>, \<open>Finish\<close> and \<open>Find\<close> calls with \<open>n\<close> \<open>Add\<close>s among them,
  since \<open>Finish\<close> (whatever order it leaves equal hashes in) keeps the length of every
  table and \<open>Find\<close> does not touch the store.
\<close>

theorem equal_length_invariant:
  "(length (tables s) = 16 \<longrightarrow>
      length (tables (Add sig d s)) = 16
      \<and> (\<forall>t<16. tables (Add sig d s) ! t = tables s ! t @ [\<lparr>hash = Add_hash t sig, docid = d\<rparr>]))
   \<and> (\<forall>t<16. length (tables (Add_all xs empty_Store) ! t) = length xs)
   \<and> (\<forall>s'. run ops empty_Store = Inr s' \<longrightarrow> (\<forall>t<16. length (tables s' ! t) = length (adds_of ops)))
   \<and> (\<forall>s'. Finish_returns s s' \<longrightarrow>
        length (tables s') = length (tables s)
        \<and> (\<forall>t<length (tables s). length (tables s' ! t) = length (tables s ! t)))"
proof (intro conjI impI allI)
  assume "length (tables s) = 16"
  then show "length (tables (Add sig d s)) = 16" by (simp add: length_tables_Add)
next
  fix t :: nat assume "length (tables s) = 16" "t < 16"
  then show "tables (Add sig d s) ! t = tables s ! t @ [\<lparr>hash = Add_hash t sig, docid = d\<rparr>]"
    by (simp add: tables_Add entry_of_def Add_hash_table_perm)
next
  fix t :: nat assume "t < 16"
  then show "length (tables (Add_all xs empty_Store) ! t) = length xs"
    by (simp add: tables_built)
next
  fix s' t assume r: "run ops empty_Store = Inr s'" and t: "t < (16 :: nat)"
  from run_store_inv [OF store_inv_empty, of ops] r have "store_inv (adds_of ops) s'" by simp
  then show "length (tables s' ! t) = length (adds_of ops)" using t by (rule store_inv_length)
next
  fix s' assume "Finish_returns s s'"
  then show "length (tables s') = length (tables s)"
    by (simp add: Finish_returns_def)
next
  fix s' t assume f: "Finish_returns s s'" and t: "t < length (tables s)"
  have "size (mset (tables s' ! t)) = size (mset (tables s ! t))"
    using Finish_returnsD(1) [OF f t] by simp
  then show "length (tables s' ! t) = length (tables s ! t)" by simp
qed

theorem equal_length_invariant_witness:
  "length (tables (Add 1 2 empty_Store)) = 16
   \<and> tables (Add 1 2 empty_Store) ! 5 = [\<lparr>hash = Add_hash 5 1, docid = 2\<rparr>]
   \<and> length (tables (Add_all [(1, 2), (3, 4)] empty_Store) ! 7) = 2
   \<and> length (tables (Add 3 4 (Finish (Add 1 2 empty_Store))) ! 0) = 2
   \<and> length (tables (Finish (Add 1 2 empty_Store)) ! 9) = 1"
proof -
  note T = equal_length_invariant [of empty_Store 1 2 "[(1, 2), (3, 4)]"
      "[OpAdd 1 2, OpFind 1, OpFinish, OpAdd 3 4]"]
  note U = equal_length_invariant [of "Add 1 2 empty_Store" 1 2 "[(1, 2)]" "[]"]
  have l: "length (tables empty_Store) = 16" by (simp add: empty_Store_def)
  have e: "\<And>t. t < 16 \<Longrightarrow> tables empty_Store ! t = []" by (simp add: empty_Store_def)
  have r: "run [OpAdd 1 2, OpFind 1, OpFinish, OpAdd 3 4] empty_Store
      = Inr (Add 3 4 (Finish (Add 1 2 empty_Store)))" by simp
  have f: "Finish_returns (Add 1 2 empty_Store) (Finish (Add 1 2 empty_Store))"
    by (rule Finish_returns_Finish)
  have a: "length (tables (Add 1 2 empty_Store) ! 9) = 1"
    using T l e by simp
  show ?thesis using T U l e r f a
    by (simp add: length_tables_Add)
qed


end
